theory Spec2Isabelle
  imports Complex_Main "HOL-Library.Product_Lexorder"
begin

section \<open>The ledger: four relations and the limiter's buckets\<close>

text \<open>
  The tables of \<^verbatim>\<open>init_db\<close> (bot.py) are lists of rows in insertion order. Coins and
  amounts are Python integers (\<open>int\<close>); a price is a double (a Python float, a REAL
  column), written as the real number it denotes;
  a clock reading is a number of seconds (\<open>timestamp\<close>), and a calendar date (the ISO
  date strings of \<^verbatim>\<open>last_daily\<close> and \<^verbatim>\<open>week_start\<close>) is the number of days since
  1970-01-01, so that two date strings are equal exactly when the day numbers are.
  The in-memory \<^verbatim>\<open>_rate_buckets\<close> (a \<^verbatim>\<open>defaultdict(list)\<close>) is a total function from
  user ids to lists of timestamps.
\<close>

type_synonym timestamp = real
type_synonym date = int

datatype status = OPEN | CLOSED

record user_row =
  telegram_id :: int
  username :: string
  coins :: int
  last_daily :: "date option"

record market_row =
  m_id :: int
  open_price :: real
  close_price :: "real option"
  open_time :: timestamp
  close_time :: "timestamp option"
  status :: status

record bet_row =
  b_id :: int
  user_id :: int
  market_id :: int
  direction :: string
  amount :: int
  resolved :: bool

record snapshot_row =
  snap_user_id :: int
  coins_at_week_start :: int
  week_start :: date

record state =
  users :: "user_row list"
  markets :: "market_row list"
  bets :: "bet_row list"
  weekly_coins_snapshot :: "snapshot_row list"
  rate_buckets :: "int \<Rightarrow> timestamp list"

definition init_state :: state where
  "init_state = \<lparr>users = [], markets = [], bets = [], weekly_coins_snapshot = [],
     rate_buckets = (\<lambda>_. [])\<rparr>"

subsection \<open>Configuration (bot.py, lines 35-45; server.py, line 27)\<close>

definition DAILY_REWARD_MESSAGE_ID :: "int option" where
  "DAILY_REWARD_MESSAGE_ID = None"

definition DAILY_REWARD_AMOUNT :: int where
  "DAILY_REWARD_AMOUNT = 100"

definition MARKET_INTERVAL_MINS :: int where
  "MARKET_INTERVAL_MINS = 5"

definition WIN_MULTIPLIER :: int where
  "WIN_MULTIPLIER = 2"

definition MAX_BET_AMOUNT :: int where
  "MAX_BET_AMOUNT = 10000"

definition MIN_BET_AMOUNT :: int where
  "MIN_BET_AMOUNT = 1"

definition BET_RATE_LIMIT_COUNT :: nat where
  "BET_RATE_LIMIT_COUNT = 3"

definition BET_RATE_LIMIT_WINDOW :: real where
  "BET_RATE_LIMIT_WINDOW = 60"

definition server_WIN_MULTIPLIER :: int where
  "server_WIN_MULTIPLIER = 2"

section \<open>SQL statements used by both front-ends\<close>

text \<open>
  \<^verbatim>\<open>SELECT * FROM markets WHERE status='OPEN' ORDER BY id DESC LIMIT 1\<close>:
  the OPEN row with the largest id, if any.
\<close>

definition get_open_market :: "market_row list \<Rightarrow> market_row option" where
  "get_open_market ms =
     (case filter (\<lambda>m. status m = OPEN) ms of
        [] \<Rightarrow> None
      | m # rest \<Rightarrow> Some (fold (\<lambda>x best. if m_id best < m_id x then x else best) rest m))"

text \<open>
  \<^verbatim>\<open>INTEGER PRIMARY KEY AUTOINCREMENT\<close>: one more than the largest id so far (rows are
  never deleted from markets or bets), 1 in an empty table.
\<close>

definition next_id :: "int list \<Rightarrow> int" where
  "next_id ids = fold max ids 0 + 1"

text \<open>\<^verbatim>\<open>SELECT ... FROM users WHERE telegram_id=?\<close> followed by \<^verbatim>\<open>fetchone()\<close>.\<close>

definition find_user :: "user_row list \<Rightarrow> int \<Rightarrow> user_row option" where
  "find_user us uid = find (\<lambda>u. telegram_id u = uid) us"

text \<open>\<^verbatim>\<open>UPDATE users SET coins = coins + ? WHERE telegram_id=?\<close> (a debit adds \<open>- n\<close>).\<close>

definition add_coins :: "int \<Rightarrow> int \<Rightarrow> user_row list \<Rightarrow> user_row list" where
  "add_coins uid n us = map (\<lambda>u. if telegram_id u = uid then u\<lparr>coins := coins u + n\<rparr> else u) us"

text \<open>
  \<^verbatim>\<open>ensure_user\<close>: \<^verbatim>\<open>INSERT OR IGNORE\<close> a row with 0 coins (ignored when the primary key
  exists), then refresh the username of the row.
\<close>

definition ensure_user :: "int \<Rightarrow> string \<Rightarrow> user_row list \<Rightarrow> user_row list" where
  "ensure_user uid name us =
     map (\<lambda>u. if telegram_id u = uid then u\<lparr>username := name\<rparr> else u)
       (if \<exists>u \<in> set us. telegram_id u = uid then us
        else us @ [\<lparr>telegram_id = uid, username = name, coins = 0, last_daily = None\<rparr>])"

text \<open>
  \<^verbatim>\<open>SELECT id FROM bets WHERE user_id=? AND market_id=? AND resolved=0\<close>: is there a row?
\<close>

definition existing_bet :: "bet_row list \<Rightarrow> int \<Rightarrow> int \<Rightarrow> bool" where
  "existing_bet bs uid mid =
     (\<exists>b \<in> set bs. user_id b = uid \<and> market_id b = mid \<and> \<not> resolved b)"

text \<open>
  \<^verbatim>\<open>INSERT INTO bets (user_id, market_id, direction, amount)\<close>: the table's
  \<^verbatim>\<open>UNIQUE(user_id, market_id)\<close> makes the statement raise IntegrityError (\<open>None\<close>) when
  the pair is already there, resolved or not.
\<close>

definition insert_bet :: "int \<Rightarrow> int \<Rightarrow> string \<Rightarrow> int \<Rightarrow> bet_row list \<Rightarrow> bet_row list option" where
  "insert_bet uid mid d amt bs =
     (if \<exists>b \<in> set bs. user_id b = uid \<and> market_id b = mid then None
      else Some (bs @ [\<lparr>b_id = next_id (map b_id bs), user_id = uid, market_id = mid,
                        direction = d, amount = amt, resolved = False\<rparr>]))"

section \<open>Market engine (bot.py, lines 124-195)\<close>

text \<open>
  \<^verbatim>\<open>get_btc_price\<close> is the external oracle: each call is a parameter, \<open>None\<close> when the
  fetch failed. \<^verbatim>\<open>open_new_market\<close> makes its own call and reads its own clock.
\<close>

subsection \<open>Double precision\<close>

text \<open>
  \<^verbatim>\<open>abs(close_price - open_price) < 0.01\<close> (line 159) is computed on doubles. The
  difference of two doubles is their exact difference rounded to the nearest double, ties
  to the even mantissa: \<open>double_round\<close>, with 53 bits of mantissa, the binary exponent
  \<open>bin_exponent\<close> of the value (found by halving or doubling, 2200 steps being more than
  any non-zero difference of doubles needs) and the spacing \<open>pow2 (e - 52)\<close>, which below
  \<open>pow2 (- 1022)\<close> stays that of the subnormal numbers. A difference too large for a
  double is infinite in the code and at least \<open>pow2 1024\<close> here: both fail the test. The
  literal \<^verbatim>\<open>0.01\<close> is the double next to one hundredth, \<open>double_0_01\<close>; \<^verbatim>\<open>abs\<close> and
  the comparisons are exact.
\<close>

definition pow2 :: "int \<Rightarrow> real" where
  "pow2 k = (if 0 \<le> k then 2 ^ nat k else 1 / 2 ^ nat (- k))"

fun bin_exponent :: "nat \<Rightarrow> real \<Rightarrow> int" where
  "bin_exponent 0 x = 0"
| "bin_exponent (Suc n) x =
     (if 2 \<le> x then bin_exponent n (x / 2) + 1
      else if x < 1 then bin_exponent n (x * 2) - 1
      else 0)"

definition round_half_even :: "real \<Rightarrow> int" where
  "round_half_even t =
     (let f = \<lfloor>t\<rfloor>; r = t - of_int f
      in if r < 1 / 2 then f else if 1 / 2 < r then f + 1 else if even f then f else f + 1)"

definition double_round :: "real \<Rightarrow> real" where
  "double_round x =
     (if x = 0 then 0
      else (let e = max (bin_exponent 2200 \<bar>x\<bar>) (- 1022);
                q = pow2 (e - 52)
            in of_int (round_half_even (x / q)) * q))"

definition double_sub :: "real \<Rightarrow> real \<Rightarrow> real" where
  "double_sub a b = double_round (a - b)"

definition double_0_01 :: real where
  "double_0_01 = 5764607523034235 / 2 ^ 59"

subsection \<open>Opening and settling\<close>

definition open_new_market :: "real option \<Rightarrow> timestamp \<Rightarrow> state \<Rightarrow> state" where
  "open_new_market price now s =
     (case price of
        None \<Rightarrow> s
      | Some p \<Rightarrow>
          s\<lparr>markets := markets s @
              [\<lparr>m_id = next_id (map m_id (markets s)), open_price = p, close_price = None,
                open_time = now, close_time = Some (now + real_of_int (MARKET_INTERVAL_MINS * 60)),
                status = OPEN\<rparr>]\<rparr>)"

definition close_market :: "int \<Rightarrow> real \<Rightarrow> timestamp \<Rightarrow> market_row list \<Rightarrow> market_row list" where
  "close_market mid cp now ms =
     map (\<lambda>m. if m_id m = mid
               then m\<lparr>close_price := Some cp, close_time := Some now, status := CLOSED\<rparr>
               else m) ms"

definition resolve_market :: "real option \<Rightarrow> timestamp \<Rightarrow> real option \<Rightarrow> timestamp \<Rightarrow> state \<Rightarrow> state" where
  "resolve_market close_p now reopen_p now2 s =
     (case close_p of
        None \<Rightarrow> s
      | Some cp \<Rightarrow>
         (case get_open_market (markets s) of
            None \<Rightarrow> open_new_market reopen_p now2 s
          | Some market \<Rightarrow>
             (let mid = m_id market;
                  op = open_price market;
                  is_tie = (\<bar>double_sub cp op\<bar> < double_0_01);
                  ms = close_market mid cp now (markets s);
                  all_bets = filter (\<lambda>b. market_id b = mid \<and> \<not> resolved b) (bets s);
                  us = (if is_tie
                        then fold (\<lambda>row. add_coins (user_id row) (amount row)) all_bets (users s)
                        else (let dir = (if cp > op then ''UP'' else ''DOWN'');
                                  winners = filter (\<lambda>r. direction r = dir) all_bets
                              in fold (\<lambda>row. add_coins (user_id row) (amount row * WIN_MULTIPLIER))
                                   winners (users s)));
                  bs = map (\<lambda>b. if market_id b = mid then b\<lparr>resolved := True\<rparr> else b) (bets s)
              in open_new_market reopen_p now2 (s\<lparr>users := us, markets := ms, bets := bs\<rparr>))))"

section \<open>Weekly snapshot and leaderboard (bot.py, lines 199-217 and 392-408)\<close>

text \<open>
  \<^verbatim>\<open>_current_week_start\<close>: \<^verbatim>\<open>today - timedelta(days=today.weekday())\<close>. Day 0
  (1970-01-01) was a Thursday, weekday 3 with Monday as 0.
\<close>

definition weekday :: "date \<Rightarrow> int" where
  "weekday today = (today + 3) mod 7"

definition current_week_start :: "date \<Rightarrow> date" where
  "current_week_start today = today - weekday today"

definition refresh_weekly_snapshot :: "date \<Rightarrow> state \<Rightarrow> state" where
  "refresh_weekly_snapshot today s =
     s\<lparr>weekly_coins_snapshot :=
         map (\<lambda>u. \<lparr>snap_user_id = telegram_id u, coins_at_week_start = coins u,
                    week_start = current_week_start today\<rparr>) (users s)\<rparr>"

text \<open>
  The \<^verbatim>\<open>LEFT JOIN\<close> of a user with the snapshot row of the user for the given week
  (\<open>user_id\<close> is the snapshot's primary key: at most one row matches), and
  \<^verbatim>\<open>u.coins - COALESCE(s.coins_at_week_start, 0) AS weekly_gain\<close>.
\<close>

definition snapshot_of :: "snapshot_row list \<Rightarrow> int \<Rightarrow> date \<Rightarrow> snapshot_row option" where
  "snapshot_of snaps uid week =
     find (\<lambda>r. snap_user_id r = uid \<and> week_start r = week) snaps"

definition weekly_gain :: "state \<Rightarrow> date \<Rightarrow> user_row \<Rightarrow> int" where
  "weekly_gain s week u =
     coins u - (case snapshot_of (weekly_coins_snapshot s) (telegram_id u) week of
                  None \<Rightarrow> 0
                | Some r \<Rightarrow> coins_at_week_start r)"

text \<open>
  \<^verbatim>\<open>cmd_leaderboard\<close>: rows (username, coins, weekly gain) ordered by gain, then coins,
  both descending, the first ten; the week start used is returned with them.
\<close>

definition cmd_leaderboard :: "date \<Rightarrow> state \<Rightarrow> (string \<times> int \<times> int) list \<times> date" where
  "cmd_leaderboard today s =
     (let week = current_week_start today
      in (take 10 (sort_key (\<lambda>(n, c, g). (- g, - c))
                    (map (\<lambda>u. (username u, coins u, weekly_gain s week u)) (users s))),
          week))"

section \<open>Rate limiter (bot.py, lines 221-235)\<close>

definition is_rate_limited :: "timestamp \<Rightarrow> int \<Rightarrow> (int \<Rightarrow> timestamp list) \<Rightarrow> bool \<times> (int \<Rightarrow> timestamp list)" where
  "is_rate_limited now uid buckets =
     (let cutoff = now - BET_RATE_LIMIT_WINDOW;
          pruned = filter (\<lambda>t. t > cutoff) (buckets uid)
      in if length pruned \<ge> BET_RATE_LIMIT_COUNT
         then (True, buckets(uid := pruned))
         else (False, buckets(uid := pruned @ [now])))"

text \<open>Successive attempts of one user at the given clock readings, with their outcomes.\<close>

fun attempts :: "timestamp list \<Rightarrow> int \<Rightarrow> (int \<Rightarrow> timestamp list) \<Rightarrow> bool list \<times> (int \<Rightarrow> timestamp list)" where
  "attempts [] uid rb = ([], rb)"
| "attempts (t # ts) uid rb =
     (let r = is_rate_limited t uid rb;
          rest = attempts ts uid (snd r)
      in (fst r # fst rest, snd rest))"

section \<open>Bet admission\<close>

text \<open>
  A Telegram user as the handlers read it: \<open>tg_name\<close> is
  \<^verbatim>\<open>user.username or user.first_name\<close>. The ids that Telegram hands to the bot are
  positive and below \<open>2\<^sup>5\<^sup>2\<close>; the ids of an HTTP request are whatever integer the
  JSON body carries.
\<close>

record tg_user =
  tg_id :: int
  tg_name :: string
  is_bot :: bool

text \<open>
  The replies of \<^verbatim>\<open>cmd_bet\<close> and the error bodies of \<^verbatim>\<open>place_bet\<close>, one constructor
  per message. \<open>Crashed\<close> is an exception that leaves the \<^verbatim>\<open>with\<close> block: the
  connection rolls the transaction back.
\<close>

datatype rejection =
    RateLimited | Usage | MissingFields | BadDirection | NotWholeNumber
  | BelowMinimum | AboveMaximum | NoActiveMarket | UserNotFound | NotEnoughCoins | AlreadyBet

datatype bet_response =
    Accepted int int
  | Rejected rejection
  | Crashed

subsection \<open>The bot command (bot.py, lines 297-390)\<close>

text \<open>
  The block under \<^verbatim>\<open>with _db_lock, get_conn() as conn\<close> (lines 332-372). A
  \<^verbatim>\<open>return\<close> inside the block commits what was written before it (the row of
  \<^verbatim>\<open>ensure_user\<close>); an exception restores the state \<open>s\<close> the block started from.
  \<open>Accepted\<close> carries \<^verbatim>\<open>new_balance\<close> and \<^verbatim>\<open>amount * WIN_MULTIPLIER\<close> of the reply.
\<close>

definition cmd_bet_txn :: "tg_user \<Rightarrow> string \<Rightarrow> int \<Rightarrow> state \<Rightarrow> bet_response \<times> state" where
  "cmd_bet_txn user direction_raw amt s =
     (let s1 = s\<lparr>users := ensure_user (tg_id user) (tg_name user) (users s)\<rparr>
      in case get_open_market (markets s1) of
           None \<Rightarrow> (Rejected NoActiveMarket, s1)
         | Some market \<Rightarrow>
            (case find_user (users s1) (tg_id user) of
               None \<Rightarrow> (Crashed, s)
             | Some row \<Rightarrow>
                 if amt > coins row then (Rejected NotEnoughCoins, s1)
                 else if existing_bet (bets s1) (tg_id user) (m_id market)
                 then (Rejected AlreadyBet, s1)
                 else (case insert_bet (tg_id user) (m_id market) direction_raw amt (bets s1) of
                         None \<Rightarrow> (Crashed, s)
                       | Some bs \<Rightarrow>
                           (Accepted (coins row - amt) (amt * WIN_MULTIPLIER),
                            s1\<lparr>users := add_coins (tg_id user) (- amt) (users s1), bets := bs\<rparr>))))"

text \<open>
  The command itself. \<open>args\<close> is \<open>None\<close> when fewer than two arguments were given;
  otherwise it holds \<^verbatim>\<open>context.args[0].upper()\<close> and the outcome of
  \<^verbatim>\<open>int(context.args[1])\<close>, \<open>None\<close> for a ValueError. \<open>now\<close> is the clock read by
  the rate limiter.
\<close>

definition cmd_bet :: "timestamp \<Rightarrow> tg_user \<Rightarrow> (string \<times> int option) option \<Rightarrow> state \<Rightarrow> bet_response \<times> state" where
  "cmd_bet now user args s =
     (let lim = is_rate_limited now (tg_id user) (rate_buckets s);
          s0 = s\<lparr>rate_buckets := snd lim\<rparr>
      in if fst lim then (Rejected RateLimited, s0)
         else (case args of
                 None \<Rightarrow> (Rejected Usage, s0)
               | Some (direction_raw, parsed) \<Rightarrow>
                   if direction_raw \<noteq> ''UP'' \<and> direction_raw \<noteq> ''DOWN''
                   then (Rejected BadDirection, s0)
                   else (case parsed of
                           None \<Rightarrow> (Rejected NotWholeNumber, s0)
                         | Some amt \<Rightarrow>
                             if amt < MIN_BET_AMOUNT then (Rejected BelowMinimum, s0)
                             else if amt > MAX_BET_AMOUNT then (Rejected AboveMaximum, s0)
                             else cmd_bet_txn user direction_raw amt s0)))"

subsection \<open>The HTTP route (server.py, lines 172-234)\<close>

text \<open>
  The request body is the JSON object of the bet admission surface: an integer
  \<open>user_id\<close>, a string \<open>direction\<close> (already upper-cased, as line 177 does) and an integer
  \<open>amount\<close>. \<^verbatim>\<open>all([user_id, direction, amount])\<close> is false when the id or the amount
  is 0 or the direction is empty; \<^verbatim>\<open>int(amount)\<close> of an integer is the integer. The
  handler reads no limiter state. \<open>place_bet_txn\<close> is the block under
  \<^verbatim>\<open>with get_db() as conn\<close> (lines 193-226); \<open>Accepted\<close> carries \<^verbatim>\<open>new_balance\<close>
  (read back from the table) and \<^verbatim>\<open>potential_payout\<close>.

  The id of the request is bound to the statement of line 200. \<^verbatim>\<open>sqlite3\<close> binds a
  Python integer as a signed 64-bit INTEGER and raises OverflowError for any other
  (\<open>sqlite_int\<close>); the exception leaves the handler, the transaction is rolled back and
  the request is answered with HTTP 500 (\<open>Crashed\<close>). No statement can have written a
  row with such an id, so the test stands in the branch of the lookup that finds no row.
\<close>

definition sqlite_int :: "int \<Rightarrow> bool" where
  "sqlite_int i \<longleftrightarrow> - (2 ^ 63) \<le> i \<and> i < 2 ^ 63"

definition place_bet_txn :: "int \<Rightarrow> string \<Rightarrow> int \<Rightarrow> state \<Rightarrow> bet_response \<times> state" where
  "place_bet_txn uid dir amt s =
     (case get_open_market (markets s) of
        None \<Rightarrow> (Rejected NoActiveMarket, s)
      | Some market \<Rightarrow>
         (case find_user (users s) uid of
            None \<Rightarrow> if sqlite_int uid then (Rejected UserNotFound, s) else (Crashed, s)
          | Some user \<Rightarrow>
              if coins user < amt then (Rejected NotEnoughCoins, s)
              else if existing_bet (bets s) uid (m_id market) then (Rejected AlreadyBet, s)
              else (case insert_bet uid (m_id market) dir amt (bets s) of
                      None \<Rightarrow> (Crashed, s)
                    | Some bs \<Rightarrow>
                       (let us = add_coins uid (- amt) (users s)
                        in case find_user us uid of
                             None \<Rightarrow> (Crashed, s)
                           | Some r \<Rightarrow>
                               (Accepted (coins r) (amt * server_WIN_MULTIPLIER),
                                s\<lparr>users := us, bets := bs\<rparr>)))))"

definition place_bet :: "int \<Rightarrow> string \<Rightarrow> int \<Rightarrow> state \<Rightarrow> bet_response \<times> state" where
  "place_bet uid dir amt s =
     (if uid = 0 \<or> dir = [] \<or> amt = 0 then (Rejected MissingFields, s)
      else if dir \<noteq> ''UP'' \<and> dir \<noteq> ''DOWN'' then (Rejected BadDirection, s)
      else if amt < 1 then (Rejected BelowMinimum, s)
      else if amt > 10000 then (Rejected AboveMaximum, s)
      else place_bet_txn uid dir amt s)"

section \<open>Daily reward (bot.py, lines 428-474)\<close>

record reaction_update =
  new_reaction :: bool
  message_id :: int
  reactor :: "tg_user option"

text \<open>
  \<open>upd\<close> is \<^verbatim>\<open>update.message_reaction\<close> (\<open>None\<close> when absent), \<open>new_reaction\<close> says
  whether its list is non-empty. \<open>on_reaction_txn\<close> is the block under the lock
  (lines 444-460): it returns the new balance when the reward was granted, and restores
  the state when a row it has just written cannot be read back. \<open>send_ok\<close> says whether
  \<^verbatim>\<open>send_message\<close> returns; when it raises, the handler swallows the exception. The
  second component of \<open>on_reaction\<close> is the notification delivered: the chat id and the
  new balance.
\<close>

definition on_reaction_txn :: "tg_user \<Rightarrow> date \<Rightarrow> state \<Rightarrow> state \<times> int option" where
  "on_reaction_txn user today s =
     (let us1 = ensure_user (tg_id user) (tg_name user) (users s)
      in case find_user us1 (tg_id user) of
           None \<Rightarrow> (s, None)
         | Some row \<Rightarrow>
            if last_daily row = Some today then (s\<lparr>users := us1\<rparr>, None)
            else
             (let us2 = map (\<lambda>u. if telegram_id u = tg_id user
                                   then u\<lparr>coins := coins u + DAILY_REWARD_AMOUNT,
                                          last_daily := Some today\<rparr>
                                   else u) us1
              in case find_user us2 (tg_id user) of
                   None \<Rightarrow> (s, None)
                 | Some r \<Rightarrow> (s\<lparr>users := us2\<rparr>, Some (coins r))))"

definition on_reaction :: "reaction_update option \<Rightarrow> date \<Rightarrow> bool \<Rightarrow> state \<Rightarrow> state \<times> (int \<times> int) option" where
  "on_reaction upd today send_ok s =
     (case upd of
        None \<Rightarrow> (s, None)
      | Some reaction \<Rightarrow>
         if \<not> new_reaction reaction then (s, None)
         else if (case DAILY_REWARD_MESSAGE_ID of
                    None \<Rightarrow> False
                  | Some m \<Rightarrow> m \<noteq> 0 \<and> message_id reaction \<noteq> m) then (s, None)
         else (case reactor reaction of
                 None \<Rightarrow> (s, None)
               | Some user \<Rightarrow>
                  if is_bot user then (s, None)
                  else (case on_reaction_txn user today s of
                          (s', None) \<Rightarrow> (s', None)
                        | (s', Some new_balance) \<Rightarrow>
                            (s', if send_ok then Some (tg_id user, new_balance) else None))))"

section \<open>The other handlers that write\<close>

text \<open>\<^verbatim>\<open>main\<close> (lines 482-484): open the first market when none is open.\<close>

definition startup :: "real option \<Rightarrow> timestamp \<Rightarrow> state \<Rightarrow> state" where
  "startup price now s =
     (if get_open_market (markets s) = None then open_new_market price now s else s)"

text \<open>\<^verbatim>\<open>cmd_start\<close> writes the user's row; \<^verbatim>\<open>cmd_balance\<close> also reports the coins.\<close>

definition cmd_start :: "tg_user \<Rightarrow> state \<Rightarrow> state" where
  "cmd_start user s = s\<lparr>users := ensure_user (tg_id user) (tg_name user) (users s)\<rparr>"

definition cmd_balance :: "tg_user \<Rightarrow> state \<Rightarrow> int option \<times> state" where
  "cmd_balance user s =
     (let s1 = s\<lparr>users := ensure_user (tg_id user) (tg_name user) (users s)\<rparr>
      in (map_option coins (find_user (users s1) (tg_id user)), s1))"

text \<open>
  \<^verbatim>\<open>upsert_user\<close> (server.py, lines 100-138): the user's row, its weekly gain and its
  rank; a missing username is \<^verbatim>\<open>"unknown"\<close>, a missing or zero id is refused, and an
  id that \<^verbatim>\<open>sqlite3\<close> cannot bind raises OverflowError at the first statement (HTTP 500).
  Both leave the tables as they were and return no record.
\<close>

definition upsert_user :: "int \<Rightarrow> string option \<Rightarrow> date \<Rightarrow> state \<Rightarrow> (user_row \<times> int \<times> int) option \<times> state" where
  "upsert_user tg name_opt today s =
     (if tg = 0 then (None, s)
      else if \<not> sqlite_int tg then (None, s)
      else
       (let name = (case name_opt of None \<Rightarrow> ''unknown'' | Some n \<Rightarrow> n);
            s1 = s\<lparr>users := ensure_user tg name (users s)\<rparr>
        in case find_user (users s1) tg of
             None \<Rightarrow> (None, s)
           | Some user \<Rightarrow>
              (let coins_at_start =
                     (case snapshot_of (weekly_coins_snapshot s1) tg (current_week_start today) of
                        None \<Rightarrow> 0
                      | Some snap \<Rightarrow> coins_at_week_start snap);
                   rank = int (length (filter (\<lambda>u. coins u > coins user) (users s1))) + 1
               in (Some (user, coins user - coins_at_start, rank), s1))))"

section \<open>Runs of the system\<close>

text \<open>
  Every handler that writes, with the values it reads from outside (clock, oracle,
  request). Each runs as one serialized unit of work; a run applies a list of events to
  the empty database.
\<close>

datatype event =
    Startup "real option" timestamp
  | ResolveMarket "real option" timestamp "real option" timestamp
  | RefreshWeekly date
  | CmdStart tg_user
  | CmdBalance tg_user
  | CmdBet timestamp tg_user "(string \<times> int option) option"
  | Reaction "reaction_update option" date bool
  | ApiUser int "string option" date
  | ApiBet int string int

fun step :: "event \<Rightarrow> state \<Rightarrow> state" where
  "step (Startup p now) s = startup p now s"
| "step (ResolveMarket cp now rp now2) s = resolve_market cp now rp now2 s"
| "step (RefreshWeekly today) s = refresh_weekly_snapshot today s"
| "step (CmdStart user) s = cmd_start user s"
| "step (CmdBalance user) s = snd (cmd_balance user s)"
| "step (CmdBet now user args) s = snd (cmd_bet now user args s)"
| "step (Reaction upd today send_ok) s = fst (on_reaction upd today send_ok s)"
| "step (ApiUser tg name today) s = snd (upsert_user tg name today s)"
| "step (ApiBet uid dir amt) s = snd (place_bet uid dir amt s)"

fun run :: "event list \<Rightarrow> state \<Rightarrow> state" where
  "run [] s = s"
| "run (e # es) s = run es (step e s)"

section \<open>Invariants of the ledger\<close>

text \<open>
  What the schema and the handlers keep true of every state a run reaches: the primary key
  of users and non-negative coins; at most one OPEN market; every bet has a positive
  amount, refers to a market, is unresolved as long as its market is OPEN, and is the only
  one of its user on its market; a bucket of the limiter never holds more than
  \<open>BET_RATE_LIMIT_COUNT\<close> timestamps.
\<close>

definition users_ok :: "user_row list \<Rightarrow> bool" where
  "users_ok us \<longleftrightarrow> distinct (map telegram_id us) \<and> (\<forall>u \<in> set us. 0 \<le> coins u)"

definition markets_ok :: "market_row list \<Rightarrow> bool" where
  "markets_ok ms \<longleftrightarrow> length (filter (\<lambda>m. status m = OPEN) ms) \<le> 1"

definition bets_ok :: "market_row list \<Rightarrow> bet_row list \<Rightarrow> bool" where
  "bets_ok ms bs \<longleftrightarrow>
     (\<forall>b \<in> set bs. 1 \<le> amount b \<and> market_id b \<in> m_id ` set ms \<and>
        (\<forall>m \<in> set ms. m_id m = market_id b \<and> status m = OPEN \<longrightarrow> \<not> resolved b)) \<and>
     distinct (map (\<lambda>b. (user_id b, market_id b)) bs)"

definition buckets_ok :: "(int \<Rightarrow> timestamp list) \<Rightarrow> bool" where
  "buckets_ok rb \<longleftrightarrow> (\<forall>uid. length (rb uid) \<le> BET_RATE_LIMIT_COUNT)"

definition state_ok :: "state \<Rightarrow> bool" where
  "state_ok s \<longleftrightarrow> users_ok (users s) \<and> markets_ok (markets s) \<and> bets_ok (markets s) (bets s) \<and>
     buckets_ok (rate_buckets s)"

definition open_markets :: "market_row list \<Rightarrow> market_row list" where
  "open_markets ms = filter (\<lambda>m. status m = OPEN) ms"

section \<open>A concrete run\<close>

text \<open>
  Two players claim the daily reward, the first market opens at 50000, Alice stakes 100
  on UP through the bot and Bob 50 on DOWN through the HTTP route.
\<close>

definition alice :: tg_user where
  "alice = \<lparr>tg_id = 7, tg_name = ''alice'', is_bot = False\<rparr>"

definition bob :: tg_user where
  "bob = \<lparr>tg_id = 8, tg_name = ''bob'', is_bot = False\<rparr>"

definition reaction_of :: "tg_user \<Rightarrow> reaction_update option" where
  "reaction_of u = Some \<lparr>new_reaction = True, message_id = 1, reactor = Some u\<rparr>"

definition two_bets :: "event list" where
  "two_bets =
     [Startup (Some 50000) 0,
      Reaction (reaction_of alice) 10 True,
      Reaction (reaction_of bob) 10 False,
      CmdBet 5 alice (Some (''UP'', Some 100)),
      ApiBet 8 ''DOWN'' 50]"

definition three_attempts :: "event list" where
  "three_attempts =
     [CmdBet 0 alice (Some (''UP'', Some 100)),
      CmdBet 10 alice None,
      CmdBet 20 alice (Some (''SIDEWAYS'', Some 1))]"

text \<open>
  The first market is open and Alice has claimed one reward; then three commands of hers
  without arguments fill her bucket. Carol has never been seen.
\<close>

definition one_claim :: "event list" where
  "one_claim = [Startup (Some 50000) 0, Reaction (reaction_of alice) 10 True]"

definition alice_limited :: "event list" where
  "alice_limited = one_claim @ [CmdBet 0 alice None, CmdBet 10 alice None, CmdBet 20 alice None]"

definition carol :: tg_user where
  "carol = \<lparr>tg_id = 9, tg_name = ''carol'', is_bot = False\<rparr>"

text \<open>The two bets of the first run, on a market that opened at \<open>pow2 (- 62)\<close>.\<close>

definition small_market :: "event list" where
  "small_market =
     [Startup (Some (1 / 2 ^ 62)) 0,
      Reaction (reaction_of alice) 10 True,
      Reaction (reaction_of bob) 10 False,
      CmdBet 5 alice (Some (''UP'', Some 100)),
      ApiBet 8 ''DOWN'' 50]"

section \<open>Facts about the SQL statements\<close>

lemma fold_pick_mem:
  "fold (\<lambda>x best. if m_id best < m_id x then x else best) rest m \<in> set (m # rest)"
  by (induction rest arbitrary: m) auto

lemma get_open_market_None_iff:
  "get_open_market ms = None \<longleftrightarrow> filter (\<lambda>m. status m = OPEN) ms = []"
  by (simp add: get_open_market_def split: list.splits)

lemma get_open_market_SomeD:
  assumes "get_open_market ms = Some m"
  shows "m \<in> set ms" and "status m = OPEN"
proof -
  from assms obtain x rest where f: "filter (\<lambda>m. status m = OPEN) ms = x # rest"
    and m: "m = fold (\<lambda>x best. if m_id best < m_id x then x else best) rest x"
    by (auto simp: get_open_market_def split: list.splits)
  have "m \<in> set (x # rest)" unfolding m by (rule fold_pick_mem)
  then have "m \<in> set (filter (\<lambda>m. status m = OPEN) ms)" by (simp only: f)
  then show "m \<in> set ms" and "status m = OPEN" by auto
qed

lemma fold_max_ge: "(a::int) \<le> fold max xs a"
proof (induction xs arbitrary: a)
  case Nil then show ?case by simp
next
  case (Cons y ys)
  have "a \<le> max y a" by simp
  also have "max y a \<le> fold max ys (max y a)" by (rule Cons.IH)
  finally show ?case by simp
qed

lemma fold_max_mem_le: "x \<in> set xs \<Longrightarrow> (x::int) \<le> fold max xs a"
proof (induction xs arbitrary: a)
  case Nil then show ?case by simp
next
  case (Cons y ys)
  show ?case
  proof (cases "x = y")
    case True
    have "max y a \<le> fold max ys (max y a)" by (rule fold_max_ge)
    with True show ?thesis by simp
  next
    case False
    with Cons show ?thesis by simp
  qed
qed

lemma next_id_fresh: "x \<in> set ids \<Longrightarrow> x < next_id ids"
  using fold_max_mem_le[of x ids 0] by (simp add: next_id_def)

lemma ids_add_coins [simp]: "map telegram_id (add_coins uid n us) = map telegram_id us"
  by (induction us) (auto simp: add_coins_def)

lemma ids_fold_add_coins [simp]:
  "map telegram_id (fold (\<lambda>row. add_coins (user_id row) (f row)) rows us) = map telegram_id us"
  by (induction rows arbitrary: us) auto

lemma ids_ensure_user:
  "map telegram_id (ensure_user uid name us) =
     (if uid \<in> set (map telegram_id us) then map telegram_id us else map telegram_id us @ [uid])"
  by (auto simp: ensure_user_def comp_def intro!: map_cong)

lemma find_user_Some_iff_distinct:
  "distinct (map telegram_id us) \<Longrightarrow> find_user us uid = Some u \<longleftrightarrow> u \<in> set us \<and> telegram_id u = uid"
  unfolding find_user_def
  by (induction us) (auto simp: image_iff)

lemma find_user_SomeD: "find_user us uid = Some u \<Longrightarrow> u \<in> set us \<and> telegram_id u = uid"
  unfolding find_user_def by (induction us) (auto split: if_splits)

lemma find_user_None_iff: "find_user us uid = None \<longleftrightarrow> uid \<notin> set (map telegram_id us)"
  unfolding find_user_def by (induction us) auto

lemma find_user_add_coins:
  "find_user (add_coins uid n us) v =
     map_option (\<lambda>u. if telegram_id u = uid then u\<lparr>coins := coins u + n\<rparr> else u) (find_user us v)"
  unfolding find_user_def add_coins_def by (induction us) auto

subsection \<open>users\<close>

lemma users_ok_ensure_user: "users_ok us \<Longrightarrow> users_ok (ensure_user uid name us)"
  unfolding users_ok_def
  by (auto simp: ids_ensure_user) (auto simp: ensure_user_def split: if_splits)

lemma users_ok_add_coins:
  assumes "users_ok us" and "\<And>u. u \<in> set us \<Longrightarrow> telegram_id u = uid \<Longrightarrow> 0 \<le> coins u + n"
  shows "users_ok (add_coins uid n us)"
proof -
  have "distinct (map telegram_id (add_coins uid n us))"
    using assms(1) by (simp add: users_ok_def)
  moreover have "\<forall>u \<in> set (add_coins uid n us). 0 \<le> coins u"
    using assms by (auto simp: add_coins_def users_ok_def)
  ultimately show ?thesis by (simp add: users_ok_def)
qed

lemma users_ok_credit: "users_ok us \<Longrightarrow> 0 \<le> n \<Longrightarrow> users_ok (add_coins uid n us)"
  by (rule users_ok_add_coins) (auto simp: users_ok_def)

lemma users_ok_fold_credit:
  "users_ok us \<Longrightarrow> (\<And>r. r \<in> set rows \<Longrightarrow> 0 \<le> f r) \<Longrightarrow>
   users_ok (fold (\<lambda>row. add_coins (user_id row) (f row)) rows us)"
  by (induction rows arbitrary: us) (auto intro: users_ok_credit)

lemma ids_daily [simp]:
  "map telegram_id (map (\<lambda>u. if telegram_id u = uid
                       then u\<lparr>coins := coins u + n, last_daily := d\<rparr>
                       else u) us) = map telegram_id us"
  by (induction us) auto

lemma users_ok_daily:
  assumes "users_ok us"
  shows "users_ok (map (\<lambda>u. if telegram_id u = uid
                       then u\<lparr>coins := coins u + DAILY_REWARD_AMOUNT, last_daily := Some today\<rparr>
                       else u) us)"
proof -
  have "\<forall>u \<in> set (map (\<lambda>u. if telegram_id u = uid
                       then u\<lparr>coins := coins u + DAILY_REWARD_AMOUNT, last_daily := Some today\<rparr>
                       else u) us). 0 \<le> coins u"
    using assms by (auto simp: users_ok_def DAILY_REWARD_AMOUNT_def)
  moreover have "distinct (map telegram_id (map (\<lambda>u. if telegram_id u = uid
                       then u\<lparr>coins := coins u + DAILY_REWARD_AMOUNT, last_daily := Some today\<rparr>
                       else u) us))"
    using assms by (simp only: ids_daily) (simp add: users_ok_def)
  ultimately show ?thesis unfolding users_ok_def by blast
qed

subsection \<open>markets\<close>

lemma markets_ok_append_open:
  "get_open_market ms = None \<Longrightarrow> status m = OPEN \<Longrightarrow> markets_ok (ms @ [m])"
  by (simp add: get_open_market_None_iff markets_ok_def)

lemma close_market_no_open:
  assumes "markets_ok ms" and "get_open_market ms = Some m"
  shows "filter (\<lambda>m. status m = OPEN) (close_market (m_id m) cp now ms) = []"
proof -
  from assms(2) have m: "m \<in> set (filter (\<lambda>m. status m = OPEN) ms)"
    by (auto dest: get_open_market_SomeD)
  from assms(1) have "length (filter (\<lambda>m. status m = OPEN) ms) \<le> 1"
    by (simp add: markets_ok_def)
  with m have only: "filter (\<lambda>m. status m = OPEN) ms = [m]"
    by (cases "filter (\<lambda>m. status m = OPEN) ms") auto
  have "x \<in> set ms \<Longrightarrow> status x = OPEN \<Longrightarrow> x = m" for x
  proof -
    assume "x \<in> set ms" "status x = OPEN"
    then have "x \<in> set (filter (\<lambda>m. status m = OPEN) ms)" by simp
    then show "x = m" by (simp only: only) simp
  qed
  then show ?thesis
    by (auto simp: close_market_def filter_empty_conv)
qed

lemma close_market_ids [simp]: "map m_id (close_market mid cp now ms) = map m_id ms"
  by (induction ms) (auto simp: close_market_def)

subsection \<open>bets\<close>

lemma bets_ok_append_market:
  assumes "bets_ok ms bs" and "m_id m = next_id (map m_id ms)"
  shows "bets_ok (ms @ [m]) bs"
proof -
  have fresh: "market_id b \<noteq> m_id m" if "b \<in> set bs" for b
  proof -
    from assms(1) that have "market_id b \<in> set (map m_id ms)" by (auto simp: bets_ok_def)
    then have "market_id b < next_id (map m_id ms)" by (rule next_id_fresh)
    with assms(2) show ?thesis by simp
  qed
  show ?thesis
    using assms(1) fresh unfolding bets_ok_def by auto
qed

lemma resolve_pairs [simp]:
  "map (\<lambda>b. (user_id b, market_id b)) (map (\<lambda>b. if market_id b = mid then b\<lparr>resolved := True\<rparr> else b) bs)
     = map (\<lambda>b. (user_id b, market_id b)) bs"
  by (induction bs) auto

lemma bets_ok_settle:
  assumes "bets_ok ms bs"
  shows "bets_ok (close_market mid cp now ms)
           (map (\<lambda>b. if market_id b = mid then b\<lparr>resolved := True\<rparr> else b) bs)"
proof -
  have ids: "m_id ` set (close_market mid cp now ms) = m_id ` set ms"
    using close_market_ids[of mid cp now ms] by (metis set_map)
  have a: "\<forall>b \<in> set (map (\<lambda>b. if market_id b = mid then b\<lparr>resolved := True\<rparr> else b) bs).
             1 \<le> amount b \<and> market_id b \<in> m_id ` set (close_market mid cp now ms) \<and>
             (\<forall>m \<in> set (close_market mid cp now ms).
                 m_id m = market_id b \<and> status m = OPEN \<longrightarrow> \<not> resolved b)"
    unfolding ids using assms
    by (auto simp: bets_ok_def close_market_def split: if_splits)
  have d: "distinct (map (\<lambda>b. (user_id b, market_id b))
             (map (\<lambda>b. if market_id b = mid then b\<lparr>resolved := True\<rparr> else b) bs))"
    using assms by (simp only: resolve_pairs) (simp add: bets_ok_def)
  from a d show ?thesis unfolding bets_ok_def by blast
qed

lemma bets_ok_insert:
  assumes "bets_ok ms bs" and "insert_bet uid mid d amt bs = Some bs'"
    and "1 \<le> amt" and "mid \<in> m_id ` set ms"
  shows "bets_ok ms bs'"
proof -
  from assms(2) have none: "\<forall>b \<in> set bs. \<not> (user_id b = uid \<and> market_id b = mid)"
    and bs': "bs' = bs @ [\<lparr>b_id = next_id (map b_id bs), user_id = uid, market_id = mid,
                        direction = d, amount = amt, resolved = False\<rparr>]"
    by (auto simp: insert_bet_def split: if_splits)
  have "(uid, mid) \<notin> set (map (\<lambda>b. (user_id b, market_id b)) bs)"
    using none by auto
  then have "distinct (map (\<lambda>b. (user_id b, market_id b)) bs')"
    using assms(1) unfolding bs' bets_ok_def by simp
  moreover have "\<forall>b \<in> set bs'. 1 \<le> amount b \<and> market_id b \<in> m_id ` set ms \<and>
        (\<forall>m \<in> set ms. m_id m = market_id b \<and> status m = OPEN \<longrightarrow> \<not> resolved b)"
    using assms(1,3,4) unfolding bs' bets_ok_def by auto
  ultimately show ?thesis unfolding bets_ok_def by blast
qed

subsection \<open>the limiter\<close>

lemma buckets_ok_is_rate_limited:
  assumes "buckets_ok rb"
  shows "buckets_ok (snd (is_rate_limited now uid rb))"
proof -
  have "length (filter (\<lambda>t. t > now - BET_RATE_LIMIT_WINDOW) (rb uid)) \<le> BET_RATE_LIMIT_COUNT"
    using assms le_trans[OF length_filter_le] by (auto simp: buckets_ok_def)
  with assms show ?thesis
    by (auto simp: buckets_ok_def is_rate_limited_def Let_def)
qed

subsection \<open>handlers keep the invariants\<close>

lemma state_ok_init: "state_ok init_state"
  by (simp add: state_ok_def init_state_def users_ok_def markets_ok_def bets_ok_def buckets_ok_def)

lemma state_ok_open_new_market:
  assumes "state_ok s" and "get_open_market (markets s) = None"
  shows "state_ok (open_new_market p now s)"
proof (cases p)
  case None
  with assms show ?thesis by (simp add: open_new_market_def)
next
  case (Some price)
  let ?m = "\<lparr>m_id = next_id (map m_id (markets s)), open_price = price, close_price = None,
             open_time = now, close_time = Some (now + real_of_int (MARKET_INTERVAL_MINS * 60)),
             status = OPEN\<rparr>"
  have "markets_ok (markets s @ [?m])"
    using assms(2) by (rule markets_ok_append_open) simp
  moreover have "bets_ok (markets s @ [?m]) (bets s)"
    using assms(1) by (intro bets_ok_append_market) (simp_all add: state_ok_def)
  ultimately show ?thesis
    using assms(1) Some by (simp add: open_new_market_def state_ok_def)
qed

lemma state_ok_startup: "state_ok s \<Longrightarrow> state_ok (startup p now s)"
  by (simp add: startup_def state_ok_open_new_market)

lemma state_ok_users_update:
  "state_ok s \<Longrightarrow> users_ok us \<Longrightarrow> state_ok (s\<lparr>users := us\<rparr>)"
  by (simp add: state_ok_def)

lemma state_ok_ensure_user: "state_ok s \<Longrightarrow> state_ok (s\<lparr>users := ensure_user uid name (users s)\<rparr>)"
  by (rule state_ok_users_update) (auto simp: state_ok_def intro: users_ok_ensure_user)

lemma state_ok_resolve_market:
  assumes "state_ok s"
  shows "state_ok (resolve_market cp now rp now2 s)"
proof (cases cp)
  case None
  with assms show ?thesis by (simp add: resolve_market_def)
next
  case (Some c)
  show ?thesis
  proof (cases "get_open_market (markets s)")
    case None
    with Some assms show ?thesis by (simp add: resolve_market_def state_ok_open_new_market)
  next
    case (Some market)
    define mid where "mid = m_id market"
    define all_bets where "all_bets = filter (\<lambda>b. market_id b = mid \<and> \<not> resolved b) (bets s)"
    define us where "us = (if \<bar>double_sub c (open_price market)\<bar> < double_0_01
        then fold (\<lambda>row. add_coins (user_id row) (amount row)) all_bets (users s)
        else fold (\<lambda>row. add_coins (user_id row) (amount row * WIN_MULTIPLIER))
               (filter (\<lambda>r. direction r = (if c > open_price market then ''UP'' else ''DOWN'')) all_bets)
               (users s))"
    define s' where "s' = s\<lparr>users := us, markets := close_market mid c now (markets s),
        bets := map (\<lambda>b. if market_id b = mid then b\<lparr>resolved := True\<rparr> else b) (bets s)\<rparr>"
    have eq: "resolve_market cp now rp now2 s = open_new_market rp now2 s'"
      using Some \<open>cp = Some c\<close>
      by (simp add: resolve_market_def Let_def s'_def us_def all_bets_def mid_def)
    have pos: "0 \<le> amount r" if "r \<in> set all_bets" for r
      using assms that by (fastforce simp: state_ok_def bets_ok_def all_bets_def)
    have "users_ok us"
      unfolding us_def using assms pos
      by (auto simp: state_ok_def WIN_MULTIPLIER_def intro!: users_ok_fold_credit)
    moreover have no_open: "filter (\<lambda>m. status m = OPEN) (close_market mid c now (markets s)) = []"
      unfolding mid_def using assms Some by (intro close_market_no_open) (simp_all add: state_ok_def)
    moreover have "bets_ok (close_market mid c now (markets s))
        (map (\<lambda>b. if market_id b = mid then b\<lparr>resolved := True\<rparr> else b) (bets s))"
      using assms by (intro bets_ok_settle) (simp add: state_ok_def)
    ultimately have "state_ok s'"
      using assms by (simp add: state_ok_def s'_def markets_ok_def)
    moreover have "get_open_market (markets s') = None"
      using no_open by (simp add: get_open_market_None_iff s'_def)
    ultimately show ?thesis unfolding eq by (rule state_ok_open_new_market)
  qed
qed

lemma state_ok_refresh_weekly_snapshot: "state_ok s \<Longrightarrow> state_ok (refresh_weekly_snapshot today s)"
  by (simp add: refresh_weekly_snapshot_def state_ok_def)

lemma state_ok_cmd_start: "state_ok s \<Longrightarrow> state_ok (cmd_start user s)"
  by (simp add: cmd_start_def state_ok_ensure_user)

lemma snd_cmd_balance:
  "snd (cmd_balance user s) = s\<lparr>users := ensure_user (tg_id user) (tg_name user) (users s)\<rparr>"
  unfolding cmd_balance_def Let_def by (rule snd_conv)

lemma state_ok_cmd_balance: "state_ok s \<Longrightarrow> state_ok (snd (cmd_balance user s))"
  by (subst snd_cmd_balance) (erule state_ok_ensure_user)

lemma state_ok_upsert_user:
  assumes "state_ok s"
  shows "state_ok (snd (upsert_user tg name today s))"
proof -
  have "state_ok (s\<lparr>users := ensure_user tg n (users s)\<rparr>)" for n
    using assms by (rule state_ok_ensure_user)
  with assms show ?thesis
    unfolding upsert_user_def Let_def by (simp split: option.splits)
qed

lemma state_ok_debit_insert:
  assumes ok: "state_ok s" and m: "get_open_market (markets s) = Some market"
    and row: "find_user (users s) uid = Some row" and le: "amt \<le> coins row" and pos: "1 \<le> amt"
    and ins: "insert_bet uid (m_id market) d amt (bets s) = Some bs"
  shows "state_ok (s\<lparr>users := add_coins uid (- amt) (users s), bets := bs\<rparr>)"
proof -
  have uok: "users_ok (users s)" and mok: "markets_ok (markets s)"
    and bok: "bets_ok (markets s) (bets s)" and rok: "buckets_ok (rate_buckets s)"
    using ok by (simp_all add: state_ok_def)
  have d: "distinct (map telegram_id (users s))" using uok by (simp add: users_ok_def)
  have "users_ok (add_coins uid (- amt) (users s))"
  proof (rule users_ok_add_coins[OF uok])
    fix u assume "u \<in> set (users s)" "telegram_id u = uid"
    then have "find_user (users s) uid = Some u" by (simp add: find_user_Some_iff_distinct[OF d])
    with row have "u = row" by simp
    with le show "0 \<le> coins u + - amt" by simp
  qed
  moreover have "m_id market \<in> m_id ` set (markets s)"
    using get_open_market_SomeD(1)[OF m] by (rule imageI)
  then have "bets_ok (markets s) bs"
    by (rule bets_ok_insert[OF bok ins pos])
  ultimately show ?thesis using mok rok by (simp add: state_ok_def)
qed

subsection \<open>the two bet transactions\<close>

lemma cmd_bet_txn_shape:
  fixes user d amt s
  defines "s1 \<equiv> s\<lparr>users := ensure_user (tg_id user) (tg_name user) (users s)\<rparr>"
  shows "(\<exists>r. cmd_bet_txn user d amt s = (Rejected r, s1)) \<or>
         cmd_bet_txn user d amt s = (Crashed, s) \<or>
         (\<exists>market row bs.
            get_open_market (markets s) = Some market \<and>
            find_user (users s1) (tg_id user) = Some row \<and>
            amt \<le> coins row \<and> \<not> existing_bet (bets s) (tg_id user) (m_id market) \<and>
            insert_bet (tg_id user) (m_id market) d amt (bets s) = Some bs \<and>
            cmd_bet_txn user d amt s =
              (Accepted (coins row - amt) (amt * WIN_MULTIPLIER),
               s1\<lparr>users := add_coins (tg_id user) (- amt) (users s1), bets := bs\<rparr>))"
proof (cases "get_open_market (markets s)")
  case None
  then show ?thesis by (simp add: cmd_bet_txn_def Let_def s1_def)
next
  case m: (Some market)
  show ?thesis
  proof (cases "find_user (users s1) (tg_id user)")
    case None
    with m show ?thesis by (simp add: cmd_bet_txn_def Let_def s1_def)
  next
    case row: (Some row)
    show ?thesis
    proof (cases "amt > coins row \<or> existing_bet (bets s) (tg_id user) (m_id market)")
      case True
      with m row show ?thesis by (auto simp add: cmd_bet_txn_def Let_def s1_def)
    next
      case ok: False
      show ?thesis
      proof (cases "insert_bet (tg_id user) (m_id market) d amt (bets s)")
        case None
        with m row ok show ?thesis by (simp add: cmd_bet_txn_def Let_def s1_def)
      next
        case (Some bs)
        with m row ok show ?thesis by (simp add: cmd_bet_txn_def Let_def s1_def)
      qed
    qed
  qed
qed

lemma place_bet_txn_shape:
  "(\<exists>r. place_bet_txn uid d amt s = (Rejected r, s)) \<or>
   place_bet_txn uid d amt s = (Crashed, s) \<or>
   (\<exists>market row bs.
      get_open_market (markets s) = Some market \<and>
      find_user (users s) uid = Some row \<and>
      amt \<le> coins row \<and> \<not> existing_bet (bets s) uid (m_id market) \<and>
      insert_bet uid (m_id market) d amt (bets s) = Some bs \<and>
      place_bet_txn uid d amt s =
        (Accepted (coins row - amt) (amt * server_WIN_MULTIPLIER),
         s\<lparr>users := add_coins uid (- amt) (users s), bets := bs\<rparr>))"
proof (cases "get_open_market (markets s)")
  case None
  then show ?thesis by (simp add: place_bet_txn_def)
next
  case m: (Some market)
  show ?thesis
  proof (cases "find_user (users s) uid")
    case None
    with m show ?thesis by (simp add: place_bet_txn_def)
  next
    case row: (Some row)
    then have id: "telegram_id row = uid" by (simp add: find_user_SomeD)
    show ?thesis
    proof (cases "coins row < amt \<or> existing_bet (bets s) uid (m_id market)")
      case True
      with m row show ?thesis by (auto simp add: place_bet_txn_def)
    next
      case ok: False
      show ?thesis
      proof (cases "insert_bet uid (m_id market) d amt (bets s)")
        case None
        with m row ok show ?thesis by (simp add: place_bet_txn_def)
      next
        case (Some bs)
        with m row ok id show ?thesis
          by (simp add: place_bet_txn_def Let_def find_user_add_coins)
      qed
    qed
  qed
qed

lemma state_ok_cmd_bet_txn:
  assumes ok: "state_ok s" and pos: "1 \<le> amt"
  shows "state_ok (snd (cmd_bet_txn user d amt s))"
proof -
  let ?s1 = "s\<lparr>users := ensure_user (tg_id user) (tg_name user) (users s)\<rparr>"
  have s1: "state_ok ?s1" using ok by (rule state_ok_ensure_user)
  from cmd_bet_txn_shape[of user d amt s]
  consider r where "cmd_bet_txn user d amt s = (Rejected r, ?s1)"
    | "cmd_bet_txn user d amt s = (Crashed, s)"
    | market row bs where "get_open_market (markets s) = Some market"
        "find_user (users ?s1) (tg_id user) = Some row" "amt \<le> coins row"
        "insert_bet (tg_id user) (m_id market) d amt (bets s) = Some bs"
        "cmd_bet_txn user d amt s =
              (Accepted (coins row - amt) (amt * WIN_MULTIPLIER),
               ?s1\<lparr>users := add_coins (tg_id user) (- amt) (users ?s1), bets := bs\<rparr>)"
    by blast
  then show ?thesis
  proof cases
    case 1
    then show ?thesis using s1 by simp
  next
    case 2
    then show ?thesis using ok by simp
  next
    case 3
    have "state_ok (?s1\<lparr>users := add_coins (tg_id user) (- amt) (users ?s1), bets := bs\<rparr>)"
    proof (rule state_ok_debit_insert[OF s1 _ 3(2) 3(3) pos])
      show "get_open_market (markets ?s1) = Some market" using 3(1) by simp
      show "insert_bet (tg_id user) (m_id market) d amt (bets ?s1) = Some bs" using 3(4) by simp
    qed
    then show ?thesis by (simp only: 3(5) snd_conv)
  qed
qed

lemma state_ok_place_bet_txn:
  assumes ok: "state_ok s" and pos: "1 \<le> amt"
  shows "state_ok (snd (place_bet_txn uid d amt s))"
proof -
  from place_bet_txn_shape[of uid d amt s]
  consider r where "place_bet_txn uid d amt s = (Rejected r, s)"
    | "place_bet_txn uid d amt s = (Crashed, s)"
    | market row bs where "get_open_market (markets s) = Some market"
        "find_user (users s) uid = Some row" "amt \<le> coins row"
        "insert_bet uid (m_id market) d amt (bets s) = Some bs"
        "place_bet_txn uid d amt s =
              (Accepted (coins row - amt) (amt * server_WIN_MULTIPLIER),
               s\<lparr>users := add_coins uid (- amt) (users s), bets := bs\<rparr>)"
    by blast
  then show ?thesis
  proof cases
    case 1
    then show ?thesis using ok by simp
  next
    case 2
    then show ?thesis using ok by simp
  next
    case 3
    have "state_ok (s\<lparr>users := add_coins uid (- amt) (users s), bets := bs\<rparr>)"
      by (rule state_ok_debit_insert[OF ok 3(1) 3(2) 3(3) pos 3(4)])
    then show ?thesis by (simp only: 3(5) snd_conv)
  qed
qed

lemma state_ok_limiter:
  assumes "state_ok s"
  shows "state_ok (s\<lparr>rate_buckets := snd (is_rate_limited now uid (rate_buckets s))\<rparr>)"
  using assms buckets_ok_is_rate_limited[of "rate_buckets s" now uid]
  by (simp add: state_ok_def)

lemma state_ok_cmd_bet:
  assumes "state_ok s"
  shows "state_ok (snd (cmd_bet now user args s))"
proof -
  let ?s0 = "s\<lparr>rate_buckets := snd (is_rate_limited now (tg_id user) (rate_buckets s))\<rparr>"
  have s0: "state_ok ?s0" using assms by (rule state_ok_limiter)
  have txn: "state_ok (snd (cmd_bet_txn user d amt ?s0))" if "\<not> amt < MIN_BET_AMOUNT" for d amt
    using s0 that by (intro state_ok_cmd_bet_txn) (simp_all add: MIN_BET_AMOUNT_def)
  show ?thesis
  proof (cases args)
    case None
    with s0 show ?thesis by (simp add: cmd_bet_def Let_def)
  next
    case (Some a)
    obtain d parsed where a: "a = (d, parsed)" by (cases a)
    show ?thesis
    proof (cases parsed)
      case None
      with Some a s0 show ?thesis by (simp add: cmd_bet_def Let_def)
    next
      case (Some amt)
      with \<open>args = Some a\<close> a s0 txn show ?thesis
        by (simp add: cmd_bet_def Let_def)
    qed
  qed
qed

lemma state_ok_place_bet:
  assumes "state_ok s"
  shows "state_ok (snd (place_bet uid dir amt s))"
proof -
  have "state_ok (snd (place_bet_txn uid d amt s))" if "\<not> amt < 1" for d
    using assms that by (intro state_ok_place_bet_txn) simp_all
  with assms show ?thesis by (simp add: place_bet_def)
qed

subsection \<open>the daily reward\<close>

lemma find_user_map_upd:
  assumes "\<And>u. telegram_id (f u) = telegram_id u"
  shows "find_user (map (\<lambda>u. if telegram_id u = uid then f u else u) us) v =
         map_option (\<lambda>u. if telegram_id u = uid then f u else u) (find_user us v)"
  unfolding find_user_def using assms by (induction us) auto

lemma find_user_ensure_user_self:
  "\<exists>row. find_user (ensure_user uid name us) uid = Some row"
proof -
  have "uid \<in> set (map telegram_id (ensure_user uid name us))"
    by (simp add: ids_ensure_user)
  then have "find_user (ensure_user uid name us) uid \<noteq> None"
    by (simp only: find_user_None_iff) simp
  then show ?thesis by blast
qed

lemma on_reaction_txn_eq:
  assumes row: "find_user (ensure_user (tg_id user) (tg_name user) (users s)) (tg_id user) = Some row"
  shows "on_reaction_txn user today s =
    (if last_daily row = Some today
     then (s\<lparr>users := ensure_user (tg_id user) (tg_name user) (users s)\<rparr>, None)
     else (s\<lparr>users := map (\<lambda>u. if telegram_id u = tg_id user
                                   then u\<lparr>coins := coins u + DAILY_REWARD_AMOUNT,
                                          last_daily := Some today\<rparr>
                                   else u) (ensure_user (tg_id user) (tg_name user) (users s))\<rparr>,
           Some (coins row + DAILY_REWARD_AMOUNT)))"
proof -
  have id: "telegram_id row = tg_id user" using row by (simp add: find_user_SomeD)
  have "find_user (map (\<lambda>u. if telegram_id u = tg_id user
                                   then u\<lparr>coins := coins u + DAILY_REWARD_AMOUNT,
                                          last_daily := Some today\<rparr>
                                   else u) (ensure_user (tg_id user) (tg_name user) (users s)))
          (tg_id user) = Some (row\<lparr>coins := coins row + DAILY_REWARD_AMOUNT, last_daily := Some today\<rparr>)"
    by (subst find_user_map_upd) (simp_all add: row id)
  then show ?thesis
    using row by (simp add: on_reaction_txn_def Let_def)
qed

lemma state_ok_on_reaction_txn:
  assumes ok: "state_ok s"
  shows "state_ok (fst (on_reaction_txn user today s))"
proof -
  obtain row where row: "find_user (ensure_user (tg_id user) (tg_name user) (users s)) (tg_id user) = Some row"
    using find_user_ensure_user_self by blast
  have a: "state_ok (s\<lparr>users := ensure_user (tg_id user) (tg_name user) (users s)\<rparr>)"
    using ok by (rule state_ok_ensure_user)
  have "users_ok (map (\<lambda>u. if telegram_id u = tg_id user
                       then u\<lparr>coins := coins u + DAILY_REWARD_AMOUNT, last_daily := Some today\<rparr>
                       else u) (ensure_user (tg_id user) (tg_name user) (users s)))"
    using ok by (intro users_ok_daily users_ok_ensure_user) (simp add: state_ok_def)
  then have b: "state_ok (s\<lparr>users := map (\<lambda>u. if telegram_id u = tg_id user
                       then u\<lparr>coins := coins u + DAILY_REWARD_AMOUNT, last_daily := Some today\<rparr>
                       else u) (ensure_user (tg_id user) (tg_name user) (users s))\<rparr>)"
    by (rule state_ok_users_update[OF ok])
  show ?thesis
    using a b by (simp add: on_reaction_txn_eq[OF row])
qed

lemma on_reaction_eligible:
  assumes "upd = Some r" and "new_reaction r" and "reactor r = Some user" and "\<not> is_bot user"
  shows "fst (on_reaction upd today send_ok s) = fst (on_reaction_txn user today s)"
  using assms unfolding on_reaction_def DAILY_REWARD_MESSAGE_ID_def
  by (cases "on_reaction_txn user today s"; cases "snd (on_reaction_txn user today s)") simp_all

lemma on_reaction_ineligible:
  assumes "\<not> (\<exists>r user. upd = Some r \<and> new_reaction r \<and> reactor r = Some user \<and> \<not> is_bot user)"
  shows "on_reaction upd today send_ok s = (s, None)"
  using assms unfolding on_reaction_def
  by (auto split: option.splits)

lemma state_ok_on_reaction:
  assumes "state_ok s"
  shows "state_ok (fst (on_reaction upd today send_ok s))"
proof (cases "\<exists>r user. upd = Some r \<and> new_reaction r \<and> reactor r = Some user \<and> \<not> is_bot user")
  case True
  then obtain r user where "upd = Some r" "new_reaction r" "reactor r = Some user" "\<not> is_bot user"
    by blast
  then have "fst (on_reaction upd today send_ok s) = fst (on_reaction_txn user today s)"
    by (rule on_reaction_eligible)
  then show ?thesis using state_ok_on_reaction_txn[OF assms] by simp
next
  case False
  then show ?thesis using assms by (simp add: on_reaction_ineligible)
qed

lemma state_ok_step: "state_ok s \<Longrightarrow> state_ok (step e s)"
  by (cases e)
     (simp_all add: state_ok_startup state_ok_resolve_market state_ok_refresh_weekly_snapshot
        state_ok_cmd_start state_ok_cmd_balance state_ok_cmd_bet state_ok_on_reaction
        state_ok_upsert_user state_ok_place_bet)

lemma state_ok_run_from: "state_ok s \<Longrightarrow> state_ok (run es s)"
  by (induction es arbitrary: s) (simp_all add: state_ok_step)

lemma state_ok_run: "state_ok (run es init_state)"
  by (rule state_ok_run_from) (rule state_ok_init)

section \<open>The claims\<close>

subsection \<open>Balances\<close>

text \<open>
  C5. After every sequence of events applied to the empty database (bet admissions on
  either front-end, settlements, reward grants, and every other handler that writes), the
  coin balance of every user is at least 0.
\<close>

theorem balance_never_negative:
  "\<forall>u \<in> set (users (run es init_state)). 0 \<le> coins u"
  using state_ok_run[of es] by (simp add: state_ok_def users_ok_def)

text \<open>
  Alice has staked her whole balance and lost; Bob has won.
\<close>

theorem balance_never_negative_witness:
  "\<lparr>telegram_id = 7, username = ''alice'', coins = 0, last_daily = Some 10\<rparr>
     \<in> set (users (run (two_bets @ [ResolveMarket (Some 49000) 300 (Some 49000) 301]) init_state)) \<and>
   0 \<le> coins \<lparr>telegram_id = 7, username = ''alice'', coins = 0, last_daily = Some 10\<rparr>"
proof -
  have m: "\<lparr>telegram_id = 7, username = ''alice'', coins = 0, last_daily = Some 10\<rparr>
     \<in> set (users (run (two_bets @ [ResolveMarket (Some 49000) 300 (Some 49000) 301]) init_state))"
    by code_simp
  have "0 \<le> coins \<lparr>telegram_id = 7, username = ''alice'', coins = 0, last_daily = Some 10\<rparr>"
    by (rule bspec[OF balance_never_negative m])
  with m show ?thesis by (rule conjI)
qed

subsection \<open>Markets\<close>

lemma markets_open_new_market:
  "markets (open_new_market rp now s) =
     markets s @ (case rp of None \<Rightarrow> []
       | Some p \<Rightarrow> [\<lparr>m_id = next_id (map m_id (markets s)), open_price = p, close_price = None,
                     open_time = now,
                     close_time = Some (now + real_of_int (MARKET_INTERVAL_MINS * 60)),
                     status = OPEN\<rparr>])"
  by (simp add: open_new_market_def split: option.splits)

lemma markets_resolve_market:
  "markets (resolve_market (Some cp) now rp now2 s) =
     (case get_open_market (markets s) of
        None \<Rightarrow> markets s
      | Some m \<Rightarrow> close_market (m_id m) cp now (markets s)) @
     (case rp of None \<Rightarrow> []
       | Some p \<Rightarrow> [\<lparr>m_id = next_id (map m_id (markets s)), open_price = p, close_price = None,
                     open_time = now2,
                     close_time = Some (now2 + real_of_int (MARKET_INTERVAL_MINS * 60)),
                     status = OPEN\<rparr>])"
  by (cases "get_open_market (markets s)"; cases rp)
     (simp_all add: resolve_market_def Let_def markets_open_new_market)

lemma open_markets_after_close:
  assumes "markets_ok ms"
  shows "open_markets (case get_open_market ms of None \<Rightarrow> ms
                        | Some m \<Rightarrow> close_market (m_id m) cp now ms) = []"
proof (cases "get_open_market ms")
  case None
  then have "filter (\<lambda>m. status m = OPEN) ms = []" by (simp add: get_open_market_None_iff)
  with None show ?thesis by (simp add: open_markets_def)
next
  case (Some m)
  with close_market_no_open[OF assms Some] show ?thesis by (simp add: open_markets_def)
qed

text \<open>
  C6, as the code has it. In every state a run reaches at most one market is OPEN. A
  settlement whose close price is available leaves every row of the market it settles
  CLOSED; it leaves exactly one market OPEN when the price fetch of \<open>open_new_market\<close>
  succeeds, and no market OPEN when that fetch fails.
\<close>

theorem at_most_one_open_market:
  "length (open_markets (markets (run es init_state))) \<le> 1 \<and>
   length (open_markets (markets
      (resolve_market (Some cp) now (Some rp) now2 (run es init_state)))) = 1 \<and>
   open_markets (markets (resolve_market (Some cp) now None now2 (run es init_state))) = [] \<and>
   (\<forall>m. get_open_market (markets (run es init_state)) = Some m \<longrightarrow>
      (\<forall>m' \<in> set (markets (resolve_market (Some cp) now reopen now2 (run es init_state))).
          m_id m' = m_id m \<longrightarrow> status m' = CLOSED))"
proof -
  have ok: "markets_ok (markets (run es init_state))"
    using state_ok_run[of es] by (simp add: state_ok_def)
  have a: "length (open_markets (markets (run es init_state))) \<le> 1"
    using ok by (simp add: markets_ok_def open_markets_def)
  have closed: "open_markets (case get_open_market (markets (run es init_state)) of
                    None \<Rightarrow> markets (run es init_state)
                  | Some m \<Rightarrow> close_market (m_id m) cp now (markets (run es init_state))) = []"
    using ok by (rule open_markets_after_close)
  have app: "open_markets (xs @ ys) = open_markets xs @ open_markets ys" for xs ys
    by (simp add: open_markets_def)
  have b: "length (open_markets (markets
      (resolve_market (Some cp) now (Some rp) now2 (run es init_state)))) = 1"
    by (simp only: markets_resolve_market app closed) (simp add: open_markets_def)
  have c: "open_markets (markets (resolve_market (Some cp) now None now2 (run es init_state))) = []"
    by (simp only: markets_resolve_market app closed) (simp add: open_markets_def)
  have d: "status m' = CLOSED"
    if m: "get_open_market (markets (run es init_state)) = Some m"
      and m': "m' \<in> set (markets (resolve_market (Some cp) now reopen now2 (run es init_state)))"
      and id: "m_id m' = m_id m" for m m'
  proof -
    have "m \<in> set (markets (run es init_state))" using m by (rule get_open_market_SomeD)
    then have "m_id m \<in> set (map m_id (markets (run es init_state)))" by simp
    then have "m_id m < next_id (map m_id (markets (run es init_state)))" by (rule next_id_fresh)
    with id have "m_id m' \<noteq> next_id (map m_id (markets (run es init_state)))" by simp
    with m' m have "m' \<in> set (close_market (m_id m) cp now (markets (run es init_state)))"
      by (auto simp: markets_resolve_market split: option.splits)
    with id show ?thesis by (auto simp: close_market_def split: if_splits)
  qed
  from a b c d show ?thesis by blast
qed

theorem at_most_one_open_market_witness:
  "get_open_market (markets (run two_bets init_state)) =
     Some \<lparr>m_id = 1, open_price = 50000, close_price = None, open_time = 0,
           close_time = Some 300, status = OPEN\<rparr> \<and>
   \<lparr>m_id = 1, open_price = 50000, close_price = Some 50500, open_time = 0,
     close_time = Some 300, status = CLOSED\<rparr>
     \<in> set (markets (resolve_market (Some 50500) 300 (Some 50500) 301 (run two_bets init_state))) \<and>
   status \<lparr>m_id = 1, open_price = 50000, close_price = Some 50500, open_time = 0,
     close_time = Some 300, status = CLOSED\<rparr> = CLOSED \<and>
   length (open_markets (markets
      (resolve_market (Some 50500) 300 (Some 50500) 301 (run two_bets init_state)))) = 1"
proof -
  have g: "get_open_market (markets (run two_bets init_state)) =
     Some \<lparr>m_id = 1, open_price = 50000, close_price = None, open_time = 0,
           close_time = Some 300, status = OPEN\<rparr>"
    by code_simp
  have m: "\<lparr>m_id = 1, open_price = 50000, close_price = Some 50500, open_time = 0,
     close_time = Some 300, status = CLOSED\<rparr>
     \<in> set (markets (resolve_market (Some 50500) 300 (Some 50500) 301 (run two_bets init_state)))"
    by code_simp
  note t = at_most_one_open_market[of two_bets 50500 300 50500 301 "Some 50500"]
  from t have one: "length (open_markets (markets
      (resolve_market (Some 50500) 300 (Some 50500) 301 (run two_bets init_state)))) = 1"
    by (elim conjE)
  from t have "\<forall>m. get_open_market (markets (run two_bets init_state)) = Some m \<longrightarrow>
      (\<forall>m' \<in> set (markets (resolve_market (Some 50500) 300 (Some 50500) 301 (run two_bets init_state))).
          m_id m' = m_id m \<longrightarrow> status m' = CLOSED)"
    by (elim conjE)
  from this[rule_format, OF g m] have c: "status \<lparr>m_id = 1, open_price = 50000,
     close_price = Some 50500, open_time = 0, close_time = Some 300, status = CLOSED\<rparr> = CLOSED"
    by simp
  from g m c one show ?thesis by (intro conjI)
qed

text \<open>
  Against C6 as stated: the close price is fetched, the market is settled, and the second
  fetch fails. No market is OPEN afterwards.
\<close>

theorem settlement_can_leave_no_open_market:
  "length (open_markets (markets
     (run [Startup (Some 50000) 0, ResolveMarket (Some 50500) 300 None 301] init_state))) \<noteq> 1"
  by code_simp

subsection \<open>The rate limiter\<close>

lemma is_rate_limited_fst:
  "fst (is_rate_limited now uid rb) \<longleftrightarrow>
     BET_RATE_LIMIT_COUNT \<le> length (filter (\<lambda>t. now - BET_RATE_LIMIT_WINDOW < t) (rb uid))"
  by (simp add: is_rate_limited_def Let_def)

lemma is_rate_limited_snd:
  "snd (is_rate_limited now uid rb) =
     rb(uid := filter (\<lambda>t. now - BET_RATE_LIMIT_WINDOW < t) (rb uid) @
                 (if fst (is_rate_limited now uid rb) then [] else [now]))"
  by (simp add: is_rate_limited_def Let_def)

lemma fourth_attempt_rejected:
  fixes t1 t2 t3 t4 :: timestamp and uid :: int and rb :: "int \<Rightarrow> timestamp list"
  defines "r1 \<equiv> is_rate_limited t1 uid rb"
  defines "r2 \<equiv> is_rate_limited t2 uid (snd r1)"
  defines "r3 \<equiv> is_rate_limited t3 uid (snd r2)"
  defines "r4 \<equiv> is_rate_limited t4 uid (snd r3)"
  assumes adm: "\<not> fst r1" "\<not> fst r2" "\<not> fst r3"
    and ord: "t1 \<le> t2" "t2 \<le> t3" "t3 \<le> t4" and win: "t4 < t1 + BET_RATE_LIMIT_WINDOW"
  shows "fst r4"
proof -
  let ?W = BET_RATE_LIMIT_WINDOW
  define b1 where "b1 = filter (\<lambda>t. t1 - ?W < t) (rb uid) @ [t1]"
  define b2 where "b2 = filter (\<lambda>t. t2 - ?W < t) b1 @ [t2]"
  define b3 where "b3 = filter (\<lambda>t. t3 - ?W < t) b2 @ [t3]"
  have s1: "snd r1 uid = b1" using adm(1) by (simp add: r1_def is_rate_limited_snd b1_def)
  have s2: "snd r2 uid = b2" using adm(2) s1 by (simp add: r2_def is_rate_limited_snd b2_def)
  have s3: "snd r3 uid = b3" using adm(3) s2 by (simp add: r3_def is_rate_limited_snd b3_def)
  have "3 \<le> length (filter (\<lambda>t. t4 - ?W < t) b3)"
    using ord win by (simp add: b3_def b2_def b1_def)
  then show ?thesis using s3
    by (simp add: r4_def is_rate_limited_fst BET_RATE_LIMIT_COUNT_def)
qed

lemma admitted_after_window:
  assumes len: "length b \<le> BET_RATE_LIMIT_COUNT" and ne: "b \<noteq> []"
    and old: "Min (set b) + BET_RATE_LIMIT_WINDOW \<le> now"
  shows "length (filter (\<lambda>t. now - BET_RATE_LIMIT_WINDOW < t) b) < BET_RATE_LIMIT_COUNT"
proof -
  have "Min (set b) \<in> set b" using ne by (intro Min_in) simp_all
  moreover have "\<not> now - BET_RATE_LIMIT_WINDOW < Min (set b)" using old by simp
  ultimately have "length (filter (\<lambda>t. now - BET_RATE_LIMIT_WINDOW < t) b) < length b"
    by (intro length_filter_less)
  with len show ?thesis by simp
qed

text \<open>
  C8. An attempt is rejected exactly when \<open>BET_RATE_LIMIT_COUNT\<close> (3) timestamps of the
  user remain after pruning those not newer than \<open>now - BET_RATE_LIMIT_WINDOW\<close> (60
  seconds); only an admitted attempt appends \<open>now\<close>, and no other user's bucket changes.
  Hence, of four attempts in time order within less than the window of the first, the
  fourth is rejected when the first three were admitted (as they are from an empty bucket);
  and in every state a run reaches, an attempt made once the window has elapsed since the
  oldest recorded timestamp is admitted.
\<close>

theorem rate_limiter_sliding_window:
  "(fst (is_rate_limited now uid rb) \<longleftrightarrow>
      BET_RATE_LIMIT_COUNT \<le> length (filter (\<lambda>t. now - BET_RATE_LIMIT_WINDOW < t) (rb uid))) \<and>
   snd (is_rate_limited now uid rb) uid =
      filter (\<lambda>t. now - BET_RATE_LIMIT_WINDOW < t) (rb uid) @
      (if fst (is_rate_limited now uid rb) then [] else [now]) \<and>
   (\<forall>v. v \<noteq> uid \<longrightarrow> snd (is_rate_limited now uid rb) v = rb v) \<and>
   (t1 \<le> t2 \<and> t2 \<le> t3 \<and> t3 \<le> t4 \<and> t4 < t1 + BET_RATE_LIMIT_WINDOW \<and>
    take 3 (fst (attempts [t1, t2, t3, t4] uid rb)) = [False, False, False] \<longrightarrow>
      fst (attempts [t1, t2, t3, t4] uid rb) = [False, False, False, True]) \<and>
   (rb uid = [] \<longrightarrow> take 3 (fst (attempts [t1, t2, t3, t4] uid rb)) = [False, False, False]) \<and>
   (rate_buckets (run es init_state) uid \<noteq> [] \<and>
    Min (set (rate_buckets (run es init_state) uid)) + BET_RATE_LIMIT_WINDOW \<le> now \<longrightarrow>
      \<not> fst (is_rate_limited now uid (rate_buckets (run es init_state)))) \<and>
   BET_RATE_LIMIT_COUNT = 3 \<and> BET_RATE_LIMIT_WINDOW = 60"
proof -
  have a: "fst (is_rate_limited now uid rb) \<longleftrightarrow>
      BET_RATE_LIMIT_COUNT \<le> length (filter (\<lambda>t. now - BET_RATE_LIMIT_WINDOW < t) (rb uid))"
    by (rule is_rate_limited_fst)
  have b: "snd (is_rate_limited now uid rb) uid =
      filter (\<lambda>t. now - BET_RATE_LIMIT_WINDOW < t) (rb uid) @
      (if fst (is_rate_limited now uid rb) then [] else [now])"
    by (subst is_rate_limited_snd) simp
  have c: "v \<noteq> uid \<Longrightarrow> snd (is_rate_limited now uid rb) v = rb v" for v
    by (subst is_rate_limited_snd) simp
  have d: "fst (attempts [t1, t2, t3, t4] uid rb) = [False, False, False, True]"
    if "t1 \<le> t2" "t2 \<le> t3" "t3 \<le> t4" "t4 < t1 + BET_RATE_LIMIT_WINDOW"
      "take 3 (fst (attempts [t1, t2, t3, t4] uid rb)) = [False, False, False]"
  proof -
    from that(5) have adm: "\<not> fst (is_rate_limited t1 uid rb)"
      "\<not> fst (is_rate_limited t2 uid (snd (is_rate_limited t1 uid rb)))"
      "\<not> fst (is_rate_limited t3 uid (snd (is_rate_limited t2 uid (snd (is_rate_limited t1 uid rb)))))"
      by (simp_all add: Let_def)
    from fourth_attempt_rejected[OF adm that(1-4)] adm show ?thesis
      by (simp add: Let_def)
  qed
  have adm: "\<not> fst (is_rate_limited t v b)" if "length (b v) < 3" for t v b
  proof -
    have "length (filter (\<lambda>x. t - BET_RATE_LIMIT_WINDOW < x) (b v)) \<le> length (b v)"
      by (rule length_filter_le)
    with that have "\<not> 3 \<le> length (filter (\<lambda>x. t - BET_RATE_LIMIT_WINDOW < x) (b v))"
      by linarith
    then show ?thesis by (simp add: is_rate_limited_fst BET_RATE_LIMIT_COUNT_def)
  qed
  have grow: "length (snd (is_rate_limited t v b) v) \<le> length (b v) + 1" for t v b
  proof -
    have "length (filter (\<lambda>x. t - BET_RATE_LIMIT_WINDOW < x) (b v)) \<le> length (b v)"
      by (rule length_filter_le)
    then have "length (filter (\<lambda>x. t - BET_RATE_LIMIT_WINDOW < x) (b v) @
         (if fst (is_rate_limited t v b) then [] else [t])) \<le> length (b v) + 1"
      by (cases "fst (is_rate_limited t v b)") (simp_all add: le_SucI)
    then show ?thesis by (simp only: is_rate_limited_snd fun_upd_same)
  qed
  have e: "take 3 (fst (attempts [t1, t2, t3, t4] uid rb)) = [False, False, False]"
    if "rb uid = []"
  proof -
    have 1: "\<not> fst (is_rate_limited t1 uid rb)"
      using that by (intro adm) simp
    have l1: "length (snd (is_rate_limited t1 uid rb) uid) \<le> 1"
      using grow[of t1 uid rb] that by simp
    have 2: "\<not> fst (is_rate_limited t2 uid (snd (is_rate_limited t1 uid rb)))"
      using l1 by (intro adm) simp
    have l2: "length (snd (is_rate_limited t2 uid (snd (is_rate_limited t1 uid rb))) uid) \<le> 2"
      using grow[of t2 uid "snd (is_rate_limited t1 uid rb)"] l1 by simp
    have 3: "\<not> fst (is_rate_limited t3 uid (snd (is_rate_limited t2 uid (snd (is_rate_limited t1 uid rb)))))"
      using l2 by (intro adm) simp
    from 1 2 3 show ?thesis by (simp add: Let_def)
  qed
  have f: "\<not> fst (is_rate_limited now uid (rate_buckets (run es init_state)))"
    if "rate_buckets (run es init_state) uid \<noteq> []"
      "Min (set (rate_buckets (run es init_state) uid)) + BET_RATE_LIMIT_WINDOW \<le> now"
  proof -
    have "length (rate_buckets (run es init_state) uid) \<le> BET_RATE_LIMIT_COUNT"
      using state_ok_run[of es] by (simp add: state_ok_def buckets_ok_def)
    from admitted_after_window[OF this that] show ?thesis
      by (simp add: is_rate_limited_fst)
  qed
  have g: "BET_RATE_LIMIT_COUNT = 3" "BET_RATE_LIMIT_WINDOW = 60"
    by (simp_all add: BET_RATE_LIMIT_COUNT_def BET_RATE_LIMIT_WINDOW_def)
  from a b c d e f g show ?thesis by blast
qed


text \<open>
  Four attempts at seconds 0, 10, 20 and 30 from an empty bucket; and three commands of
  Alice at seconds 0, 10 and 20, after which she is admitted again at second 60.
\<close>

theorem rate_limiter_sliding_window_witness:
  "fst (attempts [0, 10, 20, 30] 7 (\<lambda>_. [])) = [False, False, False, True] \<and>
   rate_buckets (run three_attempts init_state) 7 = [0, 10, 20] \<and>
   \<not> fst (is_rate_limited 60 7 (rate_buckets (run three_attempts init_state)))"
proof -
  note t = rate_limiter_sliding_window[of 60 7 "\<lambda>_. []" 0 10 20 30 three_attempts]
  have b: "rate_buckets (run three_attempts init_state) 7 = [0, 10, 20]"
    by code_simp
  from t have "take 3 (fst (attempts [0, 10, 20, 30] 7 (\<lambda>_. []))) = [False, False, False]"
    by blast
  moreover have "(0::real) \<le> 10 \<and> (10::real) \<le> 20 \<and> (20::real) \<le> 30 \<and>
      (30::real) < 0 + BET_RATE_LIMIT_WINDOW"
    by (simp add: BET_RATE_LIMIT_WINDOW_def)
  ultimately have four: "fst (attempts [0, 10, 20, 30] 7 (\<lambda>_. [])) = [False, False, False, True]"
    using t by blast
  have "rate_buckets (run three_attempts init_state) 7 \<noteq> [] \<and>
      Min (set (rate_buckets (run three_attempts init_state) 7)) + BET_RATE_LIMIT_WINDOW \<le> 60"
    unfolding b by (simp add: BET_RATE_LIMIT_WINDOW_def)
  with t have "\<not> fst (is_rate_limited 60 7 (rate_buckets (run three_attempts init_state)))"
    by blast
  with four b show ?thesis by (intro conjI)
qed

subsection \<open>Weekly gain\<close>

lemma leaderboard_rows:
  assumes "row \<in> set (fst (cmd_leaderboard today s))"
  shows "\<exists>u \<in> set (users s).
           row = (username u, coins u, weekly_gain s (current_week_start today) u)"
proof -
  from assms have "row \<in> set (take 10 (sort_key (\<lambda>(n, c, g). (- g, - c))
      (map (\<lambda>u. (username u, coins u, weekly_gain s (current_week_start today) u)) (users s))))"
    by (simp add: cmd_leaderboard_def Let_def)
  then have "row \<in> set (sort_key (\<lambda>(n, c, g). (- g, - c))
      (map (\<lambda>u. (username u, coins u, weekly_gain s (current_week_start today) u)) (users s)))"
    by (rule in_set_takeD)
  then have "row \<in> set (map (\<lambda>u. (username u, coins u, weekly_gain s (current_week_start today) u))
      (users s))"
    by simp
  then show ?thesis by auto
qed

lemma snapshot_of_fresh:
  assumes "distinct (map telegram_id us)" and "u \<in> set us"
  shows "snapshot_of (map (\<lambda>u. \<lparr>snap_user_id = telegram_id u, coins_at_week_start = coins u,
                                  week_start = w\<rparr>) us) (telegram_id u) w
         = Some \<lparr>snap_user_id = telegram_id u, coins_at_week_start = coins u, week_start = w\<rparr>"
  using assms unfolding snapshot_of_def
  by (induction us) (auto simp: image_iff)

lemma weekly_gain_after_refresh:
  assumes "distinct (map telegram_id (users s))" and "u \<in> set (users s)"
    and "current_week_start today' = current_week_start today"
  shows "weekly_gain (refresh_weekly_snapshot today s) (current_week_start today') u = 0"
  using snapshot_of_fresh[OF assms(1,2), of "current_week_start today"] assms(3)
  by (simp add: weekly_gain_def refresh_weekly_snapshot_def)

lemma users_refresh [simp]: "users (refresh_weekly_snapshot today s) = users s"
  by (simp add: refresh_weekly_snapshot_def)

text \<open>
  C9. Every row of the leaderboard carries a user's balance and that balance minus the
  coins of the user's snapshot row for the current week start, or minus 0 when there is
  no such row. The weekly refresh replaces the snapshot table by one row per user, holding
  the current balance and the new week start; in a state reached by a run, the weekly gain
  of every user computed right after it (on a day of the same week) is 0, and so is every
  gain on the leaderboard.
\<close>

theorem weekly_gain_is_balance_minus_snapshot:
  "(\<forall>row \<in> set (fst (cmd_leaderboard today s)). \<exists>u \<in> set (users s).
       row = (username u, coins u,
              coins u - (case find (\<lambda>r. snap_user_id r = telegram_id u \<and>
                                         week_start r = current_week_start today)
                                (weekly_coins_snapshot s) of
                           None \<Rightarrow> 0
                         | Some r \<Rightarrow> coins_at_week_start r))) \<and>
   (\<forall>u. (\<forall>r \<in> set (weekly_coins_snapshot s).
             \<not> (snap_user_id r = telegram_id u \<and> week_start r = current_week_start today)) \<longrightarrow>
        weekly_gain s (current_week_start today) u = coins u) \<and>
   weekly_coins_snapshot (refresh_weekly_snapshot today s) =
     map (\<lambda>u. \<lparr>snap_user_id = telegram_id u, coins_at_week_start = coins u,
                week_start = current_week_start today\<rparr>) (users s) \<and>
   (\<forall>today'. current_week_start today' = current_week_start today \<longrightarrow>
      (\<forall>u \<in> set (users (run es init_state)).
          weekly_gain (refresh_weekly_snapshot today (run es init_state))
            (current_week_start today') u = 0) \<and>
      (\<forall>row \<in> set (fst (cmd_leaderboard today'
                            (refresh_weekly_snapshot today (run es init_state)))).
          snd (snd row) = 0))"
proof -
  have a: "\<exists>u \<in> set (users s).
       row = (username u, coins u,
              coins u - (case find (\<lambda>r. snap_user_id r = telegram_id u \<and>
                                         week_start r = current_week_start today)
                                (weekly_coins_snapshot s) of
                           None \<Rightarrow> 0
                         | Some r \<Rightarrow> coins_at_week_start r))"
    if "row \<in> set (fst (cmd_leaderboard today s))" for row
    using leaderboard_rows[OF that] by (simp add: weekly_gain_def snapshot_of_def)
  have b: "weekly_gain s (current_week_start today) u = coins u"
    if "\<forall>r \<in> set (weekly_coins_snapshot s).
             \<not> (snap_user_id r = telegram_id u \<and> week_start r = current_week_start today)" for u
  proof -
    from that have "snapshot_of (weekly_coins_snapshot s) (telegram_id u) (current_week_start today)
        = None"
      by (simp add: snapshot_of_def find_None_iff)
    then show ?thesis by (simp add: weekly_gain_def)
  qed
  have c: "weekly_coins_snapshot (refresh_weekly_snapshot today s) =
     map (\<lambda>u. \<lparr>snap_user_id = telegram_id u, coins_at_week_start = coins u,
                week_start = current_week_start today\<rparr>) (users s)"
    by (simp add: refresh_weekly_snapshot_def)
  have d: "distinct (map telegram_id (users (run es init_state)))"
    using state_ok_run[of es] by (simp add: state_ok_def users_ok_def)
  have e: "weekly_gain (refresh_weekly_snapshot today (run es init_state))
            (current_week_start today') u = 0"
    if "current_week_start today' = current_week_start today" "u \<in> set (users (run es init_state))"
    for today' u
    using d that(2) that(1) by (rule weekly_gain_after_refresh)
  have f: "snd (snd row) = 0"
    if w: "current_week_start today' = current_week_start today"
      and r: "row \<in> set (fst (cmd_leaderboard today'
                            (refresh_weekly_snapshot today (run es init_state))))"
    for today' row
  proof -
    from leaderboard_rows[OF r] obtain u where u: "u \<in> set (users (run es init_state))"
      and row: "row = (username u, coins u,
         weekly_gain (refresh_weekly_snapshot today (run es init_state)) (current_week_start today') u)"
      by auto
    from e[OF w u] row show ?thesis by simp
  qed
  from a b c e f show ?thesis by blast
qed


text \<open>
  After the two bets are settled at 49000 (Bob wins), day 11 is a Monday: before the
  refresh Bob's gain is his whole balance, on day 12 after it the first row of the
  leaderboard has gain 0.
\<close>

theorem weekly_gain_is_balance_minus_snapshot_witness:
  "weekly_coins_snapshot (run (two_bets @ [ResolveMarket (Some 49000) 300 (Some 49000) 301]) init_state) = [] \<and>
   weekly_gain (run (two_bets @ [ResolveMarket (Some 49000) 300 (Some 49000) 301]) init_state)
     (current_week_start 11)
     \<lparr>telegram_id = 8, username = ''bob'', coins = 150, last_daily = Some 10\<rparr> = 150 \<and>
   current_week_start 12 = current_week_start 11 \<and>
   hd (fst (cmd_leaderboard 12 (refresh_weekly_snapshot 11
        (run (two_bets @ [ResolveMarket (Some 49000) 300 (Some 49000) 301]) init_state))))
     \<in> set (fst (cmd_leaderboard 12 (refresh_weekly_snapshot 11
        (run (two_bets @ [ResolveMarket (Some 49000) 300 (Some 49000) 301]) init_state)))) \<and>
   snd (snd (hd (fst (cmd_leaderboard 12 (refresh_weekly_snapshot 11
        (run (two_bets @ [ResolveMarket (Some 49000) 300 (Some 49000) 301]) init_state)))))) = 0"
proof -
  let ?es = "two_bets @ [ResolveMarket (Some 49000) 300 (Some 49000) 301]"
  note t = weekly_gain_is_balance_minus_snapshot[of 11 "run ?es init_state" ?es]
  have e: "weekly_coins_snapshot (run ?es init_state) = []"
    by code_simp
  then have "\<forall>r \<in> set (weekly_coins_snapshot (run ?es init_state)).
       \<not> (snap_user_id r = telegram_id \<lparr>telegram_id = 8, username = ''bob'', coins = 150,
                                        last_daily = Some 10\<rparr> \<and>
          week_start r = current_week_start 11)"
    by simp
  with t have "weekly_gain (run ?es init_state) (current_week_start 11)
      \<lparr>telegram_id = 8, username = ''bob'', coins = 150, last_daily = Some 10\<rparr>
      = coins \<lparr>telegram_id = 8, username = ''bob'', coins = 150, last_daily = Some 10\<rparr>"
    by blast
  then have g: "weekly_gain (run ?es init_state) (current_week_start 11)
      \<lparr>telegram_id = 8, username = ''bob'', coins = 150, last_daily = Some 10\<rparr> = 150"
    by simp
  have w: "current_week_start 12 = current_week_start 11"
    by (simp add: current_week_start_def weekday_def)
  have h: "hd (fst (cmd_leaderboard 12 (refresh_weekly_snapshot 11 (run ?es init_state))))
     \<in> set (fst (cmd_leaderboard 12 (refresh_weekly_snapshot 11 (run ?es init_state))))"
    by code_simp
  from t w h have z: "snd (snd (hd (fst (cmd_leaderboard 12 (refresh_weekly_snapshot 11
        (run ?es init_state)))))) = 0"
    by blast
  from e g w h z show ?thesis by (intro conjI)
qed

subsection \<open>Settlement\<close>

lemma find_user_fold_add_coins:
  "find_user (fold (\<lambda>row. add_coins (user_id row) (f row)) rows us) v =
     map_option (\<lambda>u. u\<lparr>coins := coins u + sum_list (map f (filter (\<lambda>r. user_id r = v) rows))\<rparr>)
       (find_user us v)"
proof (induction rows arbitrary: us)
  case Nil
  show ?case by (cases "find_user us v") simp_all
next
  case (Cons r rows)
  show ?case
  proof (cases "find_user us v")
    case None
    then show ?thesis by (simp add: Cons.IH find_user_add_coins)
  next
    case (Some u)
    then have "telegram_id u = v" by (simp add: find_user_SomeD)
    with Some show ?thesis by (simp add: Cons.IH find_user_add_coins)
  qed
qed

lemma filter_key_distinct:
  assumes "distinct (map key xs)" and "b \<in> set xs"
  shows "filter (\<lambda>x. key x = key b) xs = [b]"
  using assms
proof (induction xs)
  case Nil
  then show ?case by simp
next
  case (Cons x xs)
  show ?case
  proof (cases "x = b")
    case True
    with Cons.prems have "\<forall>y \<in> set xs. key y \<noteq> key b" by (auto simp: image_iff)
    then have "filter (\<lambda>x. key x = key b) xs = []" by (simp add: filter_empty_conv)
    with True show ?thesis by simp
  next
    case False
    with Cons.prems have "b \<in> set xs" "key x \<noteq> key b" by (auto simp: image_iff)
    with Cons show ?thesis by simp
  qed
qed

lemma unresolved_bets_of_user:
  assumes d: "distinct (map (\<lambda>b. (user_id b, market_id b)) bs)"
    and b: "b \<in> set bs" "market_id b = mid" "\<not> resolved b"
  shows "filter (\<lambda>r. user_id r = user_id b) (filter (\<lambda>b. market_id b = mid \<and> \<not> resolved b) bs) = [b]"
proof -
  have "filter (\<lambda>r. user_id r = user_id b) (filter (\<lambda>b. market_id b = mid \<and> \<not> resolved b) bs)
      = filter (\<lambda>x. \<not> resolved x) (filter (\<lambda>x. (user_id x, market_id x) = (user_id b, market_id b)) bs)"
    using b(2) by (simp add: conj_commute conj_left_commute cong: conj_cong)
  also have "filter (\<lambda>x. (user_id x, market_id x) = (user_id b, market_id b)) bs = [b]"
    using filter_key_distinct[OF d b(1)] by simp
  finally show ?thesis using b(3) by simp
qed

lemma no_unresolved_bets_of_user:
  assumes "\<forall>b \<in> set bs. market_id b = mid \<and> \<not> resolved b \<longrightarrow> user_id b \<noteq> v"
  shows "filter (\<lambda>r. user_id r = v) (filter (\<lambda>b. market_id b = mid \<and> \<not> resolved b) bs) = []"
  using assms by (auto simp: filter_empty_conv)

lemma users_resolve_market:
  assumes "get_open_market (markets s) = Some m"
  shows "users (resolve_market (Some cp) now rp now2 s) =
     (if \<bar>double_sub cp (open_price m)\<bar> < double_0_01
      then fold (\<lambda>row. add_coins (user_id row) (amount row))
             (filter (\<lambda>b. market_id b = m_id m \<and> \<not> resolved b) (bets s)) (users s)
      else fold (\<lambda>row. add_coins (user_id row) (amount row * WIN_MULTIPLIER))
             (filter (\<lambda>r. direction r = (if cp > open_price m then ''UP'' else ''DOWN''))
                (filter (\<lambda>b. market_id b = m_id m \<and> \<not> resolved b) (bets s))) (users s))"
  using assms by (cases rp) (simp_all add: resolve_market_def Let_def open_new_market_def)

lemma bets_resolve_market:
  assumes "get_open_market (markets s) = Some m"
  shows "bets (resolve_market (Some cp) now rp now2 s) =
     map (\<lambda>b. if market_id b = m_id m then b\<lparr>resolved := True\<rparr> else b) (bets s)"
  using assms by (cases rp) (simp_all add: resolve_market_def Let_def open_new_market_def)

subsection \<open>The tie test in double precision\<close>

lemma pow2_eq_powr: "pow2 k = (2::real) powr (of_int k)"
proof (cases "0 \<le> k")
  case True
  then have "(2::real) powr (of_int k) = 2 ^ nat k"
    by (subst powr_realpow[symmetric]) simp_all
  with True show ?thesis by (simp add: pow2_def)
next
  case False
  have "(2::real) powr (of_int k) = 1 / 2 powr (- of_int k)"
    by (simp add: powr_minus_divide)
  also have "(2::real) powr (- of_int k) = 2 ^ nat (- k)"
    using False by (subst powr_realpow[symmetric]) simp_all
  finally show ?thesis using False by (simp add: pow2_def)
qed

lemma pow2_pos [simp]: "0 < pow2 k"
  by (simp add: pow2_eq_powr)

lemma pow2_nonneg [simp]: "0 \<le> pow2 k"
  using pow2_pos[of k] by linarith

lemma pow2_add: "pow2 (j + k) = pow2 j * pow2 k"
  by (simp add: pow2_eq_powr powr_add)

lemma pow2_Suc: "pow2 (k + 1) = 2 * pow2 k"
  by (simp add: pow2_eq_powr powr_add)

lemma pow2_pred: "pow2 (k - 1) = pow2 k / 2"
  using pow2_Suc[of "k - 1"] by simp

lemma pow2_mono: "j \<le> k \<Longrightarrow> pow2 j \<le> pow2 k"
  by (simp add: pow2_eq_powr)

lemma pow2_less_iff: "pow2 j < pow2 k \<longleftrightarrow> j < k"
  by (simp add: pow2_eq_powr)

lemma pow2_le_iff: "pow2 j \<le> pow2 k \<longleftrightarrow> j \<le> k"
  by (simp add: pow2_eq_powr)

lemma pow2_0 [simp]: "pow2 0 = 1"
  by (simp add: pow2_def)

text \<open>The exponent found is the right one, or the steps have run out.\<close>

lemma bin_exponent_upper:
  "x < 2 \<Longrightarrow> x < pow2 (bin_exponent n x + 1) \<and> bin_exponent n x \<le> 0"
proof (induction n arbitrary: x)
  case 0
  then show ?case by (simp add: pow2_def)
next
  case (Suc n)
  show ?case
  proof (cases "x < 1")
    case True
    then have "x * 2 < 2" by simp
    from Suc.IH[OF this] True show ?thesis
      by (simp add: pow2_Suc)
  next
    case False
    with Suc.prems show ?thesis by (simp add: pow2_def)
  qed
qed

lemma bin_exponent_lower_small:
  "x < 2 \<Longrightarrow> pow2 (bin_exponent n x) \<le> x \<or> bin_exponent n x = - int n"
proof (induction n arbitrary: x)
  case 0
  then show ?case by simp
next
  case (Suc n)
  show ?case
  proof (cases "x < 1")
    case True
    then have "x * 2 < 2" by simp
    from Suc.IH[OF this] True show ?thesis
      by (auto simp: pow2_pred)
  next
    case False
    with Suc.prems show ?thesis by simp
  qed
qed

lemma bin_exponent_lower_big:
  "1 \<le> x \<Longrightarrow> pow2 (bin_exponent n x) \<le> x \<and> 0 \<le> bin_exponent n x"
proof (induction n arbitrary: x)
  case 0
  then show ?case by simp
next
  case (Suc n)
  show ?case
  proof (cases "2 \<le> x")
    case True
    then have "1 \<le> x / 2" by simp
    from Suc.IH[OF this] True show ?thesis
      by (simp add: pow2_Suc)
  next
    case False
    with Suc.prems show ?thesis by simp
  qed
qed

text \<open>Rounding to an integer.\<close>

lemma round_half_even_cases:
  obtains "round_half_even t = \<lfloor>t\<rfloor>" "t - of_int \<lfloor>t\<rfloor> \<le> 1 / 2"
  | "round_half_even t = \<lfloor>t\<rfloor> + 1" "1 / 2 \<le> t - of_int \<lfloor>t\<rfloor>"
  unfolding round_half_even_def Let_def
  by (cases "t - of_int \<lfloor>t\<rfloor> < 1 / 2"; cases "1 / 2 < t - of_int \<lfloor>t\<rfloor>"; cases "even \<lfloor>t\<rfloor>")
     auto

lemma round_half_even_ge:
  assumes "of_int k - 1 / 2 < t"
  shows "k \<le> round_half_even t"
proof -
  have fl: "of_int \<lfloor>t\<rfloor> \<le> t" "t < of_int \<lfloor>t\<rfloor> + 1" by linarith+
  show ?thesis
  proof (cases t rule: round_half_even_cases)
    case 1
    with assms fl have "real_of_int k < of_int \<lfloor>t\<rfloor> + 1" by linarith
    then have "k < \<lfloor>t\<rfloor> + 1" by linarith
    with 1 show ?thesis by simp
  next
    case 2
    with assms fl have "real_of_int k < of_int \<lfloor>t\<rfloor> + 2" by linarith
    then have "k < \<lfloor>t\<rfloor> + 2" by linarith
    with 2 show ?thesis by simp
  qed
qed

lemma round_half_even_le:
  assumes "t < of_int k + 1 / 2"
  shows "round_half_even t \<le> k"
proof -
  have fl: "of_int \<lfloor>t\<rfloor> \<le> t" "t < of_int \<lfloor>t\<rfloor> + 1" by linarith+
  show ?thesis
  proof (cases t rule: round_half_even_cases)
    case 1
    with assms fl have "real_of_int \<lfloor>t\<rfloor> < of_int k + 1" by linarith
    then have "\<lfloor>t\<rfloor> < k + 1" by linarith
    with 1 show ?thesis by simp
  next
    case 2
    with assms fl have "real_of_int \<lfloor>t\<rfloor> < of_int k" by linarith
    then have "\<lfloor>t\<rfloor> < k" by linarith
    with 2 show ?thesis by simp
  qed
qed

lemma round_half_even_of_int [simp]: "round_half_even (of_int k) = k"
  by (simp add: round_half_even_def)

lemma round_half_even_minus: "round_half_even (- t) = - round_half_even t"
proof (cases "t = of_int \<lfloor>t\<rfloor>")
  case True
  then obtain k where k: "t = of_int k" by blast
  have "- t = of_int (- k)" by (simp add: k)
  then have "round_half_even (- t) = - k" by (simp only: round_half_even_of_int)
  then show ?thesis by (simp add: k)
next
  case False
  have fl: "of_int \<lfloor>t\<rfloor> \<le> t" "t < of_int \<lfloor>t\<rfloor> + 1" by linarith+
  have c: "real_of_int (- \<lfloor>t\<rfloor> - 1) = - real_of_int \<lfloor>t\<rfloor> - 1" by simp
  have s: "of_int \<lfloor>t\<rfloor> < t" using fl False by linarith
  have "real_of_int (- \<lfloor>t\<rfloor> - 1) \<le> - t" "- t < real_of_int (- \<lfloor>t\<rfloor> - 1) + 1"
    unfolding c using fl(2) s by linarith+
  then have f: "\<lfloor>- t\<rfloor> = - \<lfloor>t\<rfloor> - 1"
    by (rule floor_unique)
  show ?thesis
    unfolding round_half_even_def Let_def f
    by (auto simp: algebra_simps)
qed


text \<open>Rounding to a double, around one hundredth.\<close>

lemma double_round_minus: "double_round (- x) = - double_round x"
  by (simp add: double_round_def Let_def round_half_even_minus)

lemma double_round_pos_eq:
  assumes "0 < x"
  shows "double_round x =
     of_int (round_half_even (x / pow2 (max (bin_exponent 2200 x) (- 1022) - 52))) *
     pow2 (max (bin_exponent 2200 x) (- 1022) - 52)"
  using assms by (simp add: double_round_def Let_def)

lemma double_round_ge_pow2:
  assumes x: "0 < x" and e: "e = max (bin_exponent 2200 x) (- 1022)" and lo: "pow2 e \<le> x"
  shows "pow2 e \<le> double_round x"
proof -
  let ?q = "pow2 (e - 52)"
  have "e = 52 + (e - 52)" by simp
  then have "pow2 e = pow2 52 * ?q" by (subst pow2_add[symmetric]) simp
  moreover have "pow2 52 = 2 ^ 52" by (simp add: pow2_def)
  ultimately have q: "pow2 e = 2 ^ 52 * ?q" by simp
  have "2 ^ 52 \<le> x / ?q"
    using lo by (simp add: q pos_le_divide_eq)
  moreover have "real_of_int (2 ^ 52) = 2 ^ 52" by simp
  ultimately have "real_of_int (2 ^ 52) - 1 / 2 < x / ?q" by linarith
  then have "2 ^ 52 \<le> round_half_even (x / ?q)" by (rule round_half_even_ge)
  then have "real_of_int (2 ^ 52) \<le> of_int (round_half_even (x / ?q))"
    by (simp only: of_int_le_iff)
  then have "2 ^ 52 * ?q \<le> of_int (round_half_even (x / ?q)) * ?q"
    by (intro mult_right_mono) simp_all
  then show ?thesis
    unfolding q double_round_pos_eq[OF x] e[symmetric] by simp
qed

lemma double_round_le_pow2:
  assumes x: "0 < x" and e: "e = max (bin_exponent 2200 x) (- 1022)" and hi: "x < pow2 (e + 1)"
  shows "double_round x \<le> pow2 (e + 1)"
proof -
  let ?q = "pow2 (e - 52)"
  have "e + 1 = 53 + (e - 52)" by simp
  then have "pow2 (e + 1) = pow2 53 * ?q" by (simp only: pow2_add)
  moreover have "pow2 53 = 2 ^ 53" by (simp add: pow2_def)
  ultimately have q: "pow2 (e + 1) = 2 ^ 53 * ?q" by simp
  have "x / ?q < 2 ^ 53"
    using hi by (simp add: q pos_divide_less_eq)
  moreover have "real_of_int (2 ^ 53) = 2 ^ 53" by simp
  ultimately have "x / ?q < real_of_int (2 ^ 53) + 1 / 2" by linarith
  then have "round_half_even (x / ?q) \<le> 2 ^ 53" by (rule round_half_even_le)
  then have "real_of_int (round_half_even (x / ?q)) \<le> of_int (2 ^ 53)"
    by (simp only: of_int_le_iff)
  then have "of_int (round_half_even (x / ?q)) * ?q \<le> 2 ^ 53 * ?q"
    by (intro mult_right_mono) simp_all
  then show ?thesis
    unfolding q double_round_pos_eq[OF x] e[symmetric] by simp
qed

lemma double_round_not_below:
  assumes "1 / 100 \<le> x"
  shows "double_0_01 \<le> double_round x"
proof -
  define e0 where "e0 = bin_exponent 2200 x"
  have x0: "0 < x" using assms by simp
  show ?thesis
  proof (cases "1 \<le> x")
    case True
    from bin_exponent_lower_big[OF True, of 2200]
    have lo: "pow2 e0 \<le> x" and nn: "0 \<le> e0" by (simp_all add: e0_def)
    have e: "e0 = max (bin_exponent 2200 x) (- 1022)" using nn by (simp add: e0_def)
    have "pow2 0 \<le> pow2 e0" using nn by (rule pow2_mono)
    also have "pow2 e0 \<le> double_round x" by (rule double_round_ge_pow2[OF x0 e lo])
    finally show ?thesis by (simp add: double_0_01_def)
  next
    case False
    then have x2: "x < 2" by simp
    from bin_exponent_upper[OF x2, of 2200]
    have up: "x < pow2 (e0 + 1)" by (simp add: e0_def)
    have "e0 \<noteq> - 2200"
    proof
      assume "e0 = - 2200"
      with up have "x < pow2 (- 2199)" by simp
      also have "pow2 (- 2199) \<le> pow2 (- 7)" by (rule pow2_mono) simp
      finally show False using assms by (simp add: pow2_def)
    qed
    with bin_exponent_lower_small[OF x2, of 2200]
    have lo: "pow2 e0 \<le> x" by (simp add: e0_def)
    have "pow2 (- 7) < pow2 (e0 + 1)"
    proof -
      have "pow2 (- 7) < x" using assms by (simp add: pow2_def)
      with up show ?thesis by simp
    qed
    then have ge: "- 7 \<le> e0" by (simp add: pow2_less_iff)
    then have e: "e0 = max (bin_exponent 2200 x) (- 1022)" by (simp add: e0_def)
    show ?thesis
    proof (cases "e0 = - 7")
      case False
      with ge have "- 6 \<le> e0" by simp
      then have "pow2 (- 6) \<le> pow2 e0" by (rule pow2_mono)
      also have "pow2 e0 \<le> double_round x" by (rule double_round_ge_pow2[OF x0 e lo])
      finally show ?thesis by (simp add: double_0_01_def pow2_def)
    next
      case True
      have q: "pow2 (e0 - 52) = 1 / 2 ^ 59" using True by (simp add: pow2_def)
      have "real_of_int 5764607523034235 - 1 / 2 < x / (1 / 2 ^ 59)"
        using assms by simp
      then have "5764607523034235 \<le> round_half_even (x / (1 / 2 ^ 59))"
        by (rule round_half_even_ge)
      then have "real_of_int 5764607523034235 \<le> of_int (round_half_even (x / (1 / 2 ^ 59)))"
        by (simp only: of_int_le_iff)
      then have "5764607523034235 * (1 / 2 ^ 59) \<le>
          of_int (round_half_even (x / (1 / 2 ^ 59))) * (1 / 2 ^ 59 :: real)"
        by (intro mult_right_mono) simp_all
      then show ?thesis
        unfolding double_round_pos_eq[OF x0] e[symmetric] q double_0_01_def by simp
    qed
  qed
qed

lemma double_round_below:
  assumes x0: "0 < x" and hi: "x \<le> 1 / 100 - 1 / 2 ^ 60"
  shows "double_round x < double_0_01"
proof -
  define e0 where "e0 = bin_exponent 2200 x"
  define e where "e = max e0 (- 1022)"
  have x2: "x < 2" using hi by simp
  from bin_exponent_upper[OF x2, of 2200]
  have up0: "x < pow2 (e0 + 1)" by (simp add: e0_def)
  have "e0 \<le> - 7"
  proof -
    from bin_exponent_lower_small[OF x2, of 2200]
    consider "pow2 e0 \<le> x" | "e0 = - 2200" by (auto simp: e0_def)
    then show ?thesis
    proof cases
      case 1
      have "x < pow2 (- 6)" using hi by (simp add: pow2_def)
      with 1 have "pow2 e0 < pow2 (- 6)" by simp
      then show ?thesis by (simp add: pow2_less_iff)
    next
      case 2
      then show ?thesis by simp
    qed
  qed
  then have e7: "e \<le> - 7" by (simp add: e_def)
  have ee: "e = max (bin_exponent 2200 x) (- 1022)" by (simp add: e_def e0_def)
  have "pow2 (e0 + 1) \<le> pow2 (e + 1)" by (rule pow2_mono) (simp add: e_def)
  with up0 have up: "x < pow2 (e + 1)" by simp
  show ?thesis
  proof (cases "e = - 7")
    case False
    with e7 have "e + 1 \<le> - 7" by simp
    then have "pow2 (e + 1) \<le> pow2 (- 7)" by (rule pow2_mono)
    with double_round_le_pow2[OF x0 ee up] have "double_round x \<le> pow2 (- 7)" by simp
    then show ?thesis by (simp add: double_0_01_def pow2_def)
  next
    case True
    have q: "pow2 (e - 52) = 1 / 2 ^ 59" using True by (simp add: pow2_def)
    have "x / (1 / 2 ^ 59) < real_of_int 5764607523034234 + 1 / 2"
      using hi by simp
    then have "round_half_even (x / (1 / 2 ^ 59)) \<le> 5764607523034234"
      by (rule round_half_even_le)
    then have "real_of_int (round_half_even (x / (1 / 2 ^ 59))) \<le> of_int 5764607523034234"
      by (simp only: of_int_le_iff)
    then have "of_int (round_half_even (x / (1 / 2 ^ 59))) * (1 / 2 ^ 59 :: real) \<le>
        5764607523034234 * (1 / 2 ^ 59)"
      by (intro mult_right_mono) simp_all
    then show ?thesis
      unfolding double_round_pos_eq[OF x0] ee[symmetric] q double_0_01_def by simp
  qed
qed

lemma double_round_0 [simp]: "double_round 0 = 0"
  by (simp add: double_round_def)

lemma double_tie_imp_close:
  assumes "\<bar>double_sub a b\<bar> < double_0_01"
  shows "\<bar>a - b\<bar> < 1 / 100"
proof (rule ccontr)
  assume "\<not> \<bar>a - b\<bar> < 1 / 100"
  then consider "1 / 100 \<le> a - b" | "1 / 100 \<le> - (a - b)" by linarith
  then show False
  proof cases
    case 1
    from double_round_not_below[OF this] assms show False
      by (simp add: double_sub_def)
  next
    case 2
    have "double_round (- (a - b)) = - double_round (a - b)" by (rule double_round_minus)
    with double_round_not_below[OF 2] have "double_0_01 \<le> - double_round (a - b)" by simp
    with assms show False unfolding double_sub_def by linarith
  qed
qed

lemma close_imp_double_tie:
  assumes "\<bar>a - b\<bar> \<le> 1 / 100 - 1 / 2 ^ 60"
  shows "\<bar>double_sub a b\<bar> < double_0_01"
proof -
  have pos: "0 < double_0_01" by (simp add: double_0_01_def)
  have nn: "0 \<le> double_round x" if "0 < x" for x
  proof -
    have "0 < x / pow2 (max (bin_exponent 2200 x) (- 1022) - 52)"
      using that by simp
    then have "real_of_int 0 - 1 / 2 < x / pow2 (max (bin_exponent 2200 x) (- 1022) - 52)"
      by simp
    then have "0 \<le> round_half_even (x / pow2 (max (bin_exponent 2200 x) (- 1022) - 52))"
      by (rule round_half_even_ge)
    then show ?thesis by (simp add: double_round_pos_eq[OF that])
  qed
  consider "a - b = 0" | "0 < a - b" | "0 < - (a - b)" by linarith
  then show ?thesis
  proof cases
    case 1
    then show ?thesis using pos by (simp add: double_sub_def)
  next
    case 2
    with assms have "a - b \<le> 1 / 100 - 1 / 2 ^ 60" by simp
    from double_round_below[OF 2 this] nn[OF 2] show ?thesis
      by (simp add: double_sub_def)
  next
    case 3
    with assms have "- (a - b) \<le> 1 / 100 - 1 / 2 ^ 60" by simp
    from double_round_below[OF 3 this] nn[OF 3]
    have "double_round (- (a - b)) < double_0_01" "0 \<le> double_round (- (a - b))" .
    moreover have "double_round (- (a - b)) = - double_round (a - b)"
      by (rule double_round_minus)
    ultimately show ?thesis unfolding double_sub_def by linarith
  qed
qed

subsection \<open>What a settlement pays\<close>

text \<open>
  C1, as the code has it. A settlement with close price \<open>cp\<close> of the OPEN market \<open>m\<close>, in
  a state reached by a run. The tie test is the code's: the magnitude of the difference
  \<open>cp - open\<close>, rounded to a double, is less than the double next to 0.01. It holds only
  if \<open>\<bar>cp - open\<bar> < 0.01\<close>, and whenever \<open>\<bar>cp - open\<bar> \<le> 0.01 - 1 / 2 ^ 60\<close>. A user
  holding an unresolved bet on \<open>m\<close> is credited the stake when the test holds; otherwise
  \<open>amount * WIN_MULTIPLIER\<close> (twice the stake) when the bet's direction is the winning one
  (UP if \<open>cp > open\<close>, else DOWN), and nothing when it is not. Users without such a bet keep
  their rows, and no user row appears or disappears. Every bet on \<open>m\<close> is marked resolved
  and no other bet changes; the row of \<open>m\<close> is CLOSED with the close price and the time of
  the settlement.
\<close>

theorem settlement_pays_out:
  assumes m: "get_open_market (markets (run es init_state)) = Some m"
  shows
  "(\<forall>b \<in> set (bets (run es init_state)). \<forall>u \<in> set (users (run es init_state)).
      market_id b = m_id m \<and> \<not> resolved b \<and> telegram_id u = user_id b \<longrightarrow>
      find_user (users (resolve_market (Some cp) now rp now2 (run es init_state))) (user_id b) =
        Some (u\<lparr>coins := coins u +
                (if \<bar>double_sub cp (open_price m)\<bar> < double_0_01 then amount b
                 else if direction b = (if cp > open_price m then ''UP'' else ''DOWN'')
                      then amount b * 2
                      else 0)\<rparr>)) \<and>
   (\<forall>u \<in> set (users (run es init_state)).
      (\<forall>b \<in> set (bets (run es init_state)).
          market_id b = m_id m \<and> \<not> resolved b \<longrightarrow> user_id b \<noteq> telegram_id u) \<longrightarrow>
      find_user (users (resolve_market (Some cp) now rp now2 (run es init_state))) (telegram_id u) =
        Some u) \<and>
   map telegram_id (users (resolve_market (Some cp) now rp now2 (run es init_state))) =
     map telegram_id (users (run es init_state)) \<and>
   bets (resolve_market (Some cp) now rp now2 (run es init_state)) =
     map (\<lambda>b. if market_id b = m_id m then b\<lparr>resolved := True\<rparr> else b)
       (bets (run es init_state)) \<and>
   m\<lparr>close_price := Some cp, close_time := Some now, status := CLOSED\<rparr>
     \<in> set (markets (resolve_market (Some cp) now rp now2 (run es init_state))) \<and>
   (\<forall>m' \<in> set (markets (resolve_market (Some cp) now rp now2 (run es init_state))).
      m_id m' = m_id m \<longrightarrow>
      status m' = CLOSED \<and> close_price m' = Some cp \<and> close_time m' = Some now) \<and>
   (\<bar>double_sub cp (open_price m)\<bar> < double_0_01 \<longrightarrow> \<bar>cp - open_price m\<bar> < 0.01) \<and>
   (\<bar>cp - open_price m\<bar> \<le> 0.01 - 1 / 2 ^ 60 \<longrightarrow>
      \<bar>double_sub cp (open_price m)\<bar> < double_0_01)"
proof -
  define s where "s = run es init_state"
  define s' where "s' = resolve_market (Some cp) now rp now2 s"
  define all_bets where "all_bets = filter (\<lambda>b. market_id b = m_id m \<and> \<not> resolved b) (bets s)"
  define dir where "dir = (if cp > open_price m then ''UP'' else ''DOWN'')"
  have ok: "state_ok s" unfolding s_def by (rule state_ok_run)
  have du: "distinct (map telegram_id (users s))"
    using ok by (simp add: state_ok_def users_ok_def)
  have db: "distinct (map (\<lambda>b. (user_id b, market_id b)) (bets s))"
    using ok by (simp add: state_ok_def bets_ok_def)
  have m': "get_open_market (markets s) = Some m" using m by (simp add: s_def)
  have us: "users s' =
     (if \<bar>double_sub cp (open_price m)\<bar> < double_0_01
      then fold (\<lambda>row. add_coins (user_id row) (amount row)) all_bets (users s)
      else fold (\<lambda>row. add_coins (user_id row) (amount row * WIN_MULTIPLIER))
             (filter (\<lambda>r. direction r = dir) all_bets) (users s))"
    unfolding s'_def all_bets_def dir_def by (rule users_resolve_market[OF m'])
  have fu: "find_user (users s') v =
     map_option (\<lambda>u. u\<lparr>coins := coins u +
        (if \<bar>double_sub cp (open_price m)\<bar> < double_0_01
         then sum_list (map amount (filter (\<lambda>r. user_id r = v) all_bets))
         else sum_list (map (\<lambda>r. amount r * WIN_MULTIPLIER)
                (filter (\<lambda>r. direction r = dir) (filter (\<lambda>r. user_id r = v) all_bets))))\<rparr>)
       (find_user (users s) v)" for v
  proof -
    have sw: "filter (\<lambda>r. user_id r = v) (filter (\<lambda>r. direction r = dir) all_bets) =
        filter (\<lambda>r. direction r = dir) (filter (\<lambda>r. user_id r = v) all_bets)"
      by (simp add: conj_commute)
    show ?thesis
    proof (cases "\<bar>double_sub cp (open_price m)\<bar> < double_0_01")
      case True
      then show ?thesis unfolding us by (simp only: if_True find_user_fold_add_coins)
    next
      case False
      then show ?thesis unfolding us by (simp only: if_False find_user_fold_add_coins sw)
    qed
  qed
  have a: "find_user (users s') (user_id b) =
        Some (u\<lparr>coins := coins u +
                (if \<bar>double_sub cp (open_price m)\<bar> < double_0_01 then amount b
                 else if direction b = dir then amount b * 2 else 0)\<rparr>)"
    if "b \<in> set (bets s)" "u \<in> set (users s)" "market_id b = m_id m" "\<not> resolved b"
       "telegram_id u = user_id b" for b u
  proof -
    have f: "find_user (users s) (user_id b) = Some u"
      using that(2,5) by (simp add: find_user_Some_iff_distinct[OF du])
    have one: "filter (\<lambda>r. user_id r = user_id b) all_bets = [b]"
      unfolding all_bets_def by (rule unresolved_bets_of_user[OF db that(1,3,4)])
    show ?thesis by (simp add: fu f one WIN_MULTIPLIER_def)
  qed
  have b: "find_user (users s') (telegram_id u) = Some u"
    if "u \<in> set (users s)"
      "\<forall>b \<in> set (bets s). market_id b = m_id m \<and> \<not> resolved b \<longrightarrow> user_id b \<noteq> telegram_id u" for u
  proof -
    have f: "find_user (users s) (telegram_id u) = Some u"
      using that(1) by (simp add: find_user_Some_iff_distinct[OF du])
    have none: "filter (\<lambda>r. user_id r = telegram_id u) all_bets = []"
      unfolding all_bets_def by (rule no_unresolved_bets_of_user[OF that(2)])
    show ?thesis by (simp add: fu f none)
  qed
  have c: "map telegram_id (users s') = map telegram_id (users s)"
    unfolding us by simp
  have d: "bets s' = map (\<lambda>b. if market_id b = m_id m then b\<lparr>resolved := True\<rparr> else b) (bets s)"
    unfolding s'_def by (rule bets_resolve_market[OF m'])
  have min: "m \<in> set (markets s)" using m' by (rule get_open_market_SomeD)
  have ms: "markets s' = close_market (m_id m) cp now (markets s) @
     (case rp of None \<Rightarrow> []
       | Some p \<Rightarrow> [\<lparr>m_id = next_id (map m_id (markets s)), open_price = p, close_price = None,
                     open_time = now2,
                     close_time = Some (now2 + real_of_int (MARKET_INTERVAL_MINS * 60)),
                     status = OPEN\<rparr>])"
    unfolding s'_def by (simp add: markets_resolve_market m')
  have e: "m\<lparr>close_price := Some cp, close_time := Some now, status := CLOSED\<rparr> \<in> set (markets s')"
  proof -
    have "(\<lambda>x. if m_id x = m_id m
               then x\<lparr>close_price := Some cp, close_time := Some now, status := CLOSED\<rparr>
               else x) m \<in> set (close_market (m_id m) cp now (markets s))"
      unfolding close_market_def set_map using min by (rule imageI)
    then show ?thesis by (simp add: ms)
  qed
  have f: "status x = CLOSED \<and> close_price x = Some cp \<and> close_time x = Some now"
    if "x \<in> set (markets s')" "m_id x = m_id m" for x
  proof -
    have "m_id m \<in> set (map m_id (markets s))" using min by simp
    then have "m_id m < next_id (map m_id (markets s))" by (rule next_id_fresh)
    with that have "x \<in> set (close_market (m_id m) cp now (markets s))"
      by (auto simp: ms split: option.splits)
    with that(2) show ?thesis by (auto simp: close_market_def split: if_splits)
  qed
  have g: "\<bar>cp - open_price m\<bar> < 0.01" if "\<bar>double_sub cp (open_price m)\<bar> < double_0_01"
    using double_tie_imp_close[OF that] by simp
  have h: "\<bar>double_sub cp (open_price m)\<bar> < double_0_01"
    if "\<bar>cp - open_price m\<bar> \<le> 0.01 - 1 / 2 ^ 60"
    by (rule close_imp_double_tie) (use that in simp)
  from a b c d e f g h show ?thesis
    unfolding s'_def s_def dir_def by blast
qed

text \<open>
  The market opened at 50000 with Alice's 100 on UP and Bob's 50 on DOWN: at 50500 Alice
  is credited 200 and Bob nothing; at 6400001 / 128, that is 50000.0078125 (a tie), Alice gets her 100 back.
\<close>

theorem settlement_pays_out_witness:
  "get_open_market (markets (run two_bets init_state)) =
     Some \<lparr>m_id = 1, open_price = 50000, close_price = None, open_time = 0,
           close_time = Some 300, status = OPEN\<rparr> \<and>
   \<lparr>b_id = 1, user_id = 7, market_id = 1, direction = ''UP'', amount = 100, resolved = False\<rparr>
     \<in> set (bets (run two_bets init_state)) \<and>
   \<lparr>b_id = 2, user_id = 8, market_id = 1, direction = ''DOWN'', amount = 50, resolved = False\<rparr>
     \<in> set (bets (run two_bets init_state)) \<and>
   find_user (users (run two_bets init_state)) 7 =
     Some \<lparr>telegram_id = 7, username = ''alice'', coins = 0, last_daily = Some 10\<rparr> \<and>
   find_user (users (run two_bets init_state)) 8 =
     Some \<lparr>telegram_id = 8, username = ''bob'', coins = 50, last_daily = Some 10\<rparr> \<and>
   \<not> \<bar>double_sub 50500 50000\<bar> < double_0_01 \<and>
   find_user (users (resolve_market (Some 50500) 300 (Some 50500) 301 (run two_bets init_state))) 7 =
     Some \<lparr>telegram_id = 7, username = ''alice'', coins = 200, last_daily = Some 10\<rparr> \<and>
   find_user (users (resolve_market (Some 50500) 300 (Some 50500) 301 (run two_bets init_state))) 8 =
     Some \<lparr>telegram_id = 8, username = ''bob'', coins = 50, last_daily = Some 10\<rparr> \<and>
   \<bar>double_sub (6400001 / 128) 50000\<bar> < double_0_01 \<and>
   \<bar>6400001 / 128 - 50000\<bar> < (0.01 :: real) \<and>
   find_user (users (resolve_market (Some (6400001 / 128)) 300 None 301 (run two_bets init_state))) 7 =
     Some \<lparr>telegram_id = 7, username = ''alice'', coins = 100, last_daily = Some 10\<rparr>"
proof -
  let ?m = "\<lparr>m_id = 1, open_price = 50000, close_price = None, open_time = 0,
           close_time = Some 300, status = OPEN\<rparr>"
  let ?ba = "\<lparr>b_id = 1, user_id = 7, market_id = 1, direction = ''UP'', amount = 100,
              resolved = False\<rparr>"
  let ?bb = "\<lparr>b_id = 2, user_id = 8, market_id = 1, direction = ''DOWN'', amount = 50,
              resolved = False\<rparr>"
  let ?ua = "\<lparr>telegram_id = 7, username = ''alice'', coins = 0, last_daily = Some 10\<rparr>"
  let ?ub = "\<lparr>telegram_id = 8, username = ''bob'', coins = 50, last_daily = Some 10\<rparr>"
  have g: "get_open_market (markets (run two_bets init_state)) = Some ?m" by code_simp
  have ba: "?ba \<in> set (bets (run two_bets init_state))" by code_simp
  have bb: "?bb \<in> set (bets (run two_bets init_state))" by code_simp
  have fa: "find_user (users (run two_bets init_state)) 7 = Some ?ua" by code_simp
  have fb: "find_user (users (run two_bets init_state)) 8 = Some ?ub" by code_simp
  have t1: "\<not> \<bar>double_sub 50500 50000\<bar> < double_0_01" by code_simp
  have t2: "\<bar>double_sub (6400001 / 128) 50000\<bar> < double_0_01" by code_simp
  have ua: "?ua \<in> set (users (run two_bets init_state))"
    using find_user_SomeD[OF fa] by simp
  have ub: "?ub \<in> set (users (run two_bets init_state))"
    using find_user_SomeD[OF fb] by simp
  note win = settlement_pays_out[OF g, of 50500 300 "Some 50500" 301]
  note tie = settlement_pays_out[OF g, of "6400001 / 128" 300 None 301]
  from win have w: "\<forall>b \<in> set (bets (run two_bets init_state)).
      \<forall>u \<in> set (users (run two_bets init_state)).
      market_id b = m_id ?m \<and> \<not> resolved b \<and> telegram_id u = user_id b \<longrightarrow>
      find_user (users (resolve_market (Some 50500) 300 (Some 50500) 301 (run two_bets init_state)))
        (user_id b) =
        Some (u\<lparr>coins := coins u +
                (if \<bar>double_sub 50500 (open_price ?m)\<bar> < double_0_01 then amount b
                 else if direction b = (if 50500 > open_price ?m then ''UP'' else ''DOWN'')
                      then amount b * 2
                      else 0)\<rparr>)"
    by (elim conjE)
  from tie have t: "\<forall>b \<in> set (bets (run two_bets init_state)).
      \<forall>u \<in> set (users (run two_bets init_state)).
      market_id b = m_id ?m \<and> \<not> resolved b \<and> telegram_id u = user_id b \<longrightarrow>
      find_user (users (resolve_market (Some (6400001 / 128)) 300 None 301 (run two_bets init_state)))
        (user_id b) =
        Some (u\<lparr>coins := coins u +
                (if \<bar>double_sub (6400001 / 128) (open_price ?m)\<bar> < double_0_01 then amount b
                 else if direction b = (if 6400001 / 128 > open_price ?m then ''UP'' else ''DOWN'')
                      then amount b * 2
                      else 0)\<rparr>)"
    by (elim conjE)
  from tie have "\<bar>double_sub (6400001 / 128) (open_price ?m)\<bar> < double_0_01 \<longrightarrow>
      \<bar>6400001 / 128 - open_price ?m\<bar> < 0.01"
    by (elim conjE)
  with t2 have cl: "\<bar>6400001 / 128 - 50000\<bar> < (0.01 :: real)" by simp
  from w[rule_format, OF ba ua] have ra:
    "find_user (users (resolve_market (Some 50500) 300 (Some 50500) 301 (run two_bets init_state))) 7
      = Some \<lparr>telegram_id = 7, username = ''alice'', coins = 200, last_daily = Some 10\<rparr>"
    by (simp add: t1)
  from w[rule_format, OF bb ub] have rb:
    "find_user (users (resolve_market (Some 50500) 300 (Some 50500) 301 (run two_bets init_state))) 8
      = Some \<lparr>telegram_id = 8, username = ''bob'', coins = 50, last_daily = Some 10\<rparr>"
    by (simp add: t1)
  from t[rule_format, OF ba ua] have rt:
    "find_user (users (resolve_market (Some (6400001 / 128)) 300 None 301 (run two_bets init_state))) 7
      = Some \<lparr>telegram_id = 7, username = ''alice'', coins = 100, last_daily = Some 10\<rparr>"
    by (simp add: t2)
  from g ba bb fa fb t1 ra rb t2 cl rt show ?thesis by (intro conjI)
qed

text \<open>
  Against C1 as stated: a market opened at \<open>pow2 (- 62)\<close> closes at the double next to
  0.01. The two prices differ by less than 0.01, but the rounded difference is that double
  itself and the test fails: UP wins, Alice is credited 200 and Bob, who holds an
  unresolved bet of 50 on DOWN, is credited nothing.
\<close>

theorem tie_test_rounds_the_difference:
  "get_open_market (markets (run small_market init_state)) =
     Some \<lparr>m_id = 1, open_price = 1 / 2 ^ 62, close_price = None, open_time = 0,
           close_time = Some 300, status = OPEN\<rparr> \<and>
   \<bar>double_0_01 - 1 / 2 ^ 62\<bar> < (0.01 :: real) \<and>
   double_sub double_0_01 (1 / 2 ^ 62) = double_0_01 \<and>
   \<lparr>b_id = 2, user_id = 8, market_id = 1, direction = ''DOWN'', amount = 50, resolved = False\<rparr>
     \<in> set (bets (run small_market init_state)) \<and>
   find_user (users (run small_market init_state)) 8 =
     Some \<lparr>telegram_id = 8, username = ''bob'', coins = 50, last_daily = Some 10\<rparr> \<and>
   find_user (users (resolve_market (Some double_0_01) 300 None 301
                       (run small_market init_state))) 8 =
     Some \<lparr>telegram_id = 8, username = ''bob'', coins = 50, last_daily = Some 10\<rparr> \<and>
   find_user (users (resolve_market (Some double_0_01) 300 None 301
                       (run small_market init_state))) 7 =
     Some \<lparr>telegram_id = 7, username = ''alice'', coins = 200, last_daily = Some 10\<rparr>"
  by code_simp

subsection \<open>Bet admission\<close>

lemma cmd_bet_valid:
  assumes "\<not> fst (is_rate_limited now (tg_id user) (rate_buckets s))"
    and "d = ''UP'' \<or> d = ''DOWN''" and "MIN_BET_AMOUNT \<le> amt" and "amt \<le> MAX_BET_AMOUNT"
  shows "cmd_bet now user (Some (d, Some amt)) s =
     cmd_bet_txn user d amt (s\<lparr>rate_buckets := snd (is_rate_limited now (tg_id user) (rate_buckets s))\<rparr>)"
  using assms(2)
proof
  assume "d = ''UP''"
  with assms(1,3,4) show ?thesis by (simp add: cmd_bet_def Let_def)
next
  assume "d = ''DOWN''"
  with assms(1,3,4) show ?thesis by (simp add: cmd_bet_def Let_def)
qed

lemma place_bet_valid:
  assumes "uid \<noteq> 0" and "d = ''UP'' \<or> d = ''DOWN''" and "1 \<le> amt" and "amt \<le> 10000"
  shows "place_bet uid d amt s = place_bet_txn uid d amt s"
  using assms(2)
proof
  assume "d = ''UP''"
  with assms(1,3,4) show ?thesis by (simp add: place_bet_def)
next
  assume "d = ''DOWN''"
  with assms(1,3,4) show ?thesis by (simp add: place_bet_def)
qed

lemma ensure_user_existing:
  assumes "find_user us uid = Some u"
  shows "ensure_user uid name us =
     map (\<lambda>u. if telegram_id u = uid then u\<lparr>username := name\<rparr> else u) us"
proof -
  from assms have "u \<in> set us" "telegram_id u = uid" by (simp_all add: find_user_SomeD)
  then have "\<exists>u \<in> set us. telegram_id u = uid" by blast
  then show ?thesis by (simp add: ensure_user_def)
qed

lemma find_user_ensure_user_existing:
  assumes "find_user us uid = Some u"
  shows "find_user (ensure_user uid name us) uid = Some (u\<lparr>username := name\<rparr>)"
proof -
  have id: "telegram_id u = uid" using assms by (simp add: find_user_SomeD)
  show ?thesis
    unfolding ensure_user_existing[OF assms]
    by (subst find_user_map_upd) (simp_all add: assms id)
qed

lemma insert_bet_fresh:
  assumes ok: "bets_ok ms bs" and m: "m \<in> set ms" "status m = OPEN"
    and none: "\<not> existing_bet bs uid (m_id m)"
  shows "insert_bet uid (m_id m) d amt bs =
     Some (bs @ [\<lparr>b_id = next_id (map b_id bs), user_id = uid, market_id = m_id m,
                   direction = d, amount = amt, resolved = False\<rparr>])"
proof -
  have "\<not> (user_id b = uid \<and> market_id b = m_id m)" if "b \<in> set bs" for b
  proof
    assume b: "user_id b = uid \<and> market_id b = m_id m"
    from ok that m b have "\<not> resolved b" unfolding bets_ok_def by metis
    with that b have "existing_bet bs uid (m_id m)" unfolding existing_bet_def by blast
    with none show False by simp
  qed
  then show ?thesis by (auto simp: insert_bet_def)
qed

lemma place_bet_txn_success:
  assumes "get_open_market (markets s) = Some m" and u: "find_user (users s) uid = Some u"
    and "amt \<le> coins u" and "\<not> existing_bet (bets s) uid (m_id m)"
    and "insert_bet uid (m_id m) d amt (bets s) = Some bs"
  shows "place_bet_txn uid d amt s =
     (Accepted (coins u - amt) (amt * server_WIN_MULTIPLIER),
      s\<lparr>users := add_coins uid (- amt) (users s), bets := bs\<rparr>)"
proof -
  have "telegram_id u = uid" using u by (simp add: find_user_SomeD)
  with assms show ?thesis
    by (simp add: place_bet_txn_def Let_def find_user_add_coins)
qed

lemma cmd_bet_txn_success:
  assumes "get_open_market (markets s) = Some m"
    and u: "find_user (ensure_user (tg_id user) (tg_name user) (users s)) (tg_id user) = Some row"
    and "amt \<le> coins row" and "\<not> existing_bet (bets s) (tg_id user) (m_id m)"
    and "insert_bet (tg_id user) (m_id m) d amt (bets s) = Some bs"
  shows "cmd_bet_txn user d amt s =
     (Accepted (coins row - amt) (amt * WIN_MULTIPLIER),
      s\<lparr>users := add_coins (tg_id user) (- amt)
                    (ensure_user (tg_id user) (tg_name user) (users s)),
        bets := bs\<rparr>)"
  using assms by (simp add: cmd_bet_txn_def Let_def)

text \<open>
  C2. In a state \<open>s\<close> reached by a run, take a request with direction UP or DOWN, an amount
  within the bounds, an OPEN market \<open>m\<close>, a user row \<open>u\<close> with \<open>amt \<le> coins u\<close> and no
  unresolved bet of the user on \<open>m\<close>. The HTTP route (for a non-zero user id) and the bot
  command (when the limiter admits the attempt) both answer with the new balance
  \<open>coins u - amt\<close> and the potential payout \<open>amt * 2\<close>; the user's balance is debited by
  exactly \<open>amt\<close>, no other balance changes, and exactly one bet row is appended, with
  \<open>resolved = False\<close>. The bot also refreshes the stored username and records the attempt
  in the limiter.
\<close>

theorem bet_admission_success:
  assumes s: "s = run es init_state"
    and d: "d = ''UP'' \<or> d = ''DOWN''"
    and lo: "MIN_BET_AMOUNT \<le> amt" and hi: "amt \<le> MAX_BET_AMOUNT"
    and m: "get_open_market (markets s) = Some m"
    and u: "find_user (users s) uid = Some u"
    and funds: "amt \<le> coins u"
    and nodup: "\<not> existing_bet (bets s) uid (m_id m)"
  shows
  "(uid \<noteq> 0 \<longrightarrow>
      fst (place_bet uid d amt s) = Accepted (coins u - amt) (amt * 2) \<and>
      snd (place_bet uid d amt s) =
        s\<lparr>users := add_coins uid (- amt) (users s),
          bets := bets s @ [\<lparr>b_id = next_id (map b_id (bets s)), user_id = uid,
                              market_id = m_id m, direction = d, amount = amt,
                              resolved = False\<rparr>]\<rparr> \<and>
      find_user (users (snd (place_bet uid d amt s))) uid = Some (u\<lparr>coins := coins u - amt\<rparr>) \<and>
      (\<forall>v. v \<noteq> uid \<longrightarrow>
         find_user (users (snd (place_bet uid d amt s))) v = find_user (users s) v)) \<and>
   (tg_id user = uid \<and> \<not> fst (is_rate_limited now uid (rate_buckets s)) \<longrightarrow>
      fst (cmd_bet now user (Some (d, Some amt)) s) = Accepted (coins u - amt) (amt * 2) \<and>
      snd (cmd_bet now user (Some (d, Some amt)) s) =
        s\<lparr>rate_buckets := snd (is_rate_limited now uid (rate_buckets s)),
          users := add_coins uid (- amt) (ensure_user uid (tg_name user) (users s)),
          bets := bets s @ [\<lparr>b_id = next_id (map b_id (bets s)), user_id = uid,
                              market_id = m_id m, direction = d, amount = amt,
                              resolved = False\<rparr>]\<rparr> \<and>
      find_user (users (snd (cmd_bet now user (Some (d, Some amt)) s))) uid =
        Some (u\<lparr>username := tg_name user, coins := coins u - amt\<rparr>) \<and>
      (\<forall>v. v \<noteq> uid \<longrightarrow>
         find_user (users (snd (cmd_bet now user (Some (d, Some amt)) s))) v =
         find_user (users s) v))"
proof -
  let ?new = "\<lparr>b_id = next_id (map b_id (bets s)), user_id = uid, market_id = m_id m,
               direction = d, amount = amt, resolved = False\<rparr>"
  have ok: "state_ok s" unfolding s by (rule state_ok_run)
  have bok: "bets_ok (markets s) (bets s)" using ok by (simp add: state_ok_def)
  have mm: "m \<in> set (markets s)" "status m = OPEN"
    using get_open_market_SomeD[OF m] by simp_all
  have ins: "insert_bet uid (m_id m) d amt (bets s) = Some (bets s @ [?new])"
    by (rule insert_bet_fresh[OF bok mm nodup])
  have id: "telegram_id u = uid" using u by (simp add: find_user_SomeD)
  have lo1: "1 \<le> amt" and hi1: "amt \<le> 10000"
    using lo hi by (simp_all add: MIN_BET_AMOUNT_def MAX_BET_AMOUNT_def)
  have http: "place_bet uid d amt s =
      (Accepted (coins u - amt) (amt * 2),
       s\<lparr>users := add_coins uid (- amt) (users s), bets := bets s @ [?new]\<rparr>)"
    if "uid \<noteq> 0"
    unfolding place_bet_valid[OF that d lo1 hi1]
      place_bet_txn_success[OF m u funds nodup ins]
    by (simp add: server_WIN_MULTIPLIER_def)
  have h1: "find_user (add_coins uid (- amt) (users s)) uid = Some (u\<lparr>coins := coins u - amt\<rparr>)"
    by (simp add: find_user_add_coins u id)
  have h2: "find_user (add_coins uid (- amt) (users s)) v = find_user (users s) v"
    if "v \<noteq> uid" for v
  proof (cases "find_user (users s) v")
    case None
    then show ?thesis by (simp add: find_user_add_coins)
  next
    case (Some w)
    then have "telegram_id w = v" by (simp add: find_user_SomeD)
    with Some that show ?thesis by (simp add: find_user_add_coins)
  qed
  have A: "fst (place_bet uid d amt s) = Accepted (coins u - amt) (amt * 2) \<and>
      snd (place_bet uid d amt s) =
        s\<lparr>users := add_coins uid (- amt) (users s), bets := bets s @ [?new]\<rparr> \<and>
      find_user (users (snd (place_bet uid d amt s))) uid = Some (u\<lparr>coins := coins u - amt\<rparr>) \<and>
      (\<forall>v. v \<noteq> uid \<longrightarrow>
         find_user (users (snd (place_bet uid d amt s))) v = find_user (users s) v)"
    if "uid \<noteq> 0"
    using h1 h2 by (simp add: http[OF that])
  have B: "fst (cmd_bet now user (Some (d, Some amt)) s) = Accepted (coins u - amt) (amt * 2) \<and>
      snd (cmd_bet now user (Some (d, Some amt)) s) =
        s\<lparr>rate_buckets := snd (is_rate_limited now uid (rate_buckets s)),
          users := add_coins uid (- amt) (ensure_user uid (tg_name user) (users s)),
          bets := bets s @ [?new]\<rparr> \<and>
      find_user (users (snd (cmd_bet now user (Some (d, Some amt)) s))) uid =
        Some (u\<lparr>username := tg_name user, coins := coins u - amt\<rparr>) \<and>
      (\<forall>v. v \<noteq> uid \<longrightarrow>
         find_user (users (snd (cmd_bet now user (Some (d, Some amt)) s))) v =
         find_user (users s) v)"
    if t: "tg_id user = uid" and adm: "\<not> fst (is_rate_limited now uid (rate_buckets s))"
  proof -
    let ?s0 = "s\<lparr>rate_buckets := snd (is_rate_limited now (tg_id user) (rate_buckets s))\<rparr>"
    have adm': "\<not> fst (is_rate_limited now (tg_id user) (rate_buckets s))" using adm t by simp
    have row: "find_user (ensure_user (tg_id user) (tg_name user) (users ?s0)) (tg_id user)
        = Some (u\<lparr>username := tg_name user\<rparr>)"
      using find_user_ensure_user_existing[OF u, of "tg_name user"] t by simp
    have bot: "cmd_bet now user (Some (d, Some amt)) s =
        (Accepted (coins u - amt) (amt * 2),
         s\<lparr>rate_buckets := snd (is_rate_limited now uid (rate_buckets s)),
           users := add_coins uid (- amt) (ensure_user uid (tg_name user) (users s)),
           bets := bets s @ [?new]\<rparr>)"
      unfolding cmd_bet_valid[OF adm' d lo hi]
      by (subst cmd_bet_txn_success[where m = m and row = "u\<lparr>username := tg_name user\<rparr>"
            and bs = "bets s @ [?new]"])
         (use m row funds nodup ins t in \<open>simp_all add: WIN_MULTIPLIER_def\<close>)
    have e: "ensure_user uid (tg_name user) (users s) =
        map (\<lambda>u. if telegram_id u = uid then u\<lparr>username := tg_name user\<rparr> else u) (users s)"
      by (rule ensure_user_existing[OF u])
    have b1: "find_user (add_coins uid (- amt) (ensure_user uid (tg_name user) (users s))) uid =
        Some (u\<lparr>username := tg_name user, coins := coins u - amt\<rparr>)"
      using find_user_ensure_user_existing[OF u, of "tg_name user"] id
      by (simp add: find_user_add_coins)
    have b2: "find_user (add_coins uid (- amt) (ensure_user uid (tg_name user) (users s))) v =
        find_user (users s) v" if "v \<noteq> uid" for v
    proof (cases "find_user (users s) v")
      case None
      then show ?thesis unfolding e
        by (subst find_user_add_coins, subst find_user_map_upd) simp_all
    next
      case (Some w)
      then have "telegram_id w = v" by (simp add: find_user_SomeD)
      with Some that show ?thesis unfolding e
        by (subst find_user_add_coins, subst find_user_map_upd) simp_all
    qed
    show ?thesis using b1 b2 by (simp add: bot)
  qed
  from A B show ?thesis by blast
qed


text \<open>
  Alice holds 100 coins and stakes them all on UP, through either front-end.
\<close>

theorem bet_admission_success_witness:
  "get_open_market (markets (run one_claim init_state)) =
     Some \<lparr>m_id = 1, open_price = 50000, close_price = None, open_time = 0,
           close_time = Some 300, status = OPEN\<rparr> \<and>
   find_user (users (run one_claim init_state)) 7 =
     Some \<lparr>telegram_id = 7, username = ''alice'', coins = 100, last_daily = Some 10\<rparr> \<and>
   \<not> existing_bet (bets (run one_claim init_state)) 7 1 \<and>
   \<not> fst (is_rate_limited 5 7 (rate_buckets (run one_claim init_state))) \<and>
   fst (place_bet 7 ''UP'' 100 (run one_claim init_state)) = Accepted 0 200 \<and>
   find_user (users (snd (place_bet 7 ''UP'' 100 (run one_claim init_state)))) 7 =
     Some \<lparr>telegram_id = 7, username = ''alice'', coins = 0, last_daily = Some 10\<rparr> \<and>
   fst (cmd_bet 5 alice (Some (''UP'', Some 100)) (run one_claim init_state)) = Accepted 0 200 \<and>
   bets (snd (cmd_bet 5 alice (Some (''UP'', Some 100)) (run one_claim init_state))) =
     [\<lparr>b_id = 1, user_id = 7, market_id = 1, direction = ''UP'', amount = 100,
       resolved = False\<rparr>]"
proof -
  let ?s = "run one_claim init_state"
  let ?m = "\<lparr>m_id = 1, open_price = 50000, close_price = None, open_time = 0,
           close_time = Some 300, status = OPEN\<rparr>"
  let ?u = "\<lparr>telegram_id = 7, username = ''alice'', coins = 100, last_daily = Some 10\<rparr>"
  have g: "get_open_market (markets ?s) = Some ?m" by code_simp
  have f: "find_user (users ?s) 7 = Some ?u" by code_simp
  have n: "\<not> existing_bet (bets ?s) 7 1" by code_simp
  have n': "\<not> existing_bet (bets ?s) 7 (m_id ?m)" using n by simp
  have l: "\<not> fst (is_rate_limited 5 7 (rate_buckets ?s))" by code_simp
  have b: "bets ?s = []" by code_simp
  have a: "tg_id alice = 7" "tg_name alice = ''alice''" by (simp_all add: alice_def)
  have t: "(7 \<noteq> (0::int) \<longrightarrow>
      fst (place_bet 7 ''UP'' 100 ?s) = Accepted (coins ?u - 100) (100 * 2) \<and>
      snd (place_bet 7 ''UP'' 100 ?s) =
        ?s\<lparr>users := add_coins 7 (- 100) (users ?s),
          bets := bets ?s @ [\<lparr>b_id = next_id (map b_id (bets ?s)), user_id = 7,
                              market_id = m_id ?m, direction = ''UP'', amount = 100,
                              resolved = False\<rparr>]\<rparr> \<and>
      find_user (users (snd (place_bet 7 ''UP'' 100 ?s))) 7 = Some (?u\<lparr>coins := coins ?u - 100\<rparr>) \<and>
      (\<forall>v. v \<noteq> 7 \<longrightarrow>
         find_user (users (snd (place_bet 7 ''UP'' 100 ?s))) v = find_user (users ?s) v)) \<and>
   (tg_id alice = 7 \<and> \<not> fst (is_rate_limited 5 7 (rate_buckets ?s)) \<longrightarrow>
      fst (cmd_bet 5 alice (Some (''UP'', Some 100)) ?s) = Accepted (coins ?u - 100) (100 * 2) \<and>
      snd (cmd_bet 5 alice (Some (''UP'', Some 100)) ?s) =
        ?s\<lparr>rate_buckets := snd (is_rate_limited 5 7 (rate_buckets ?s)),
          users := add_coins 7 (- 100) (ensure_user 7 (tg_name alice) (users ?s)),
          bets := bets ?s @ [\<lparr>b_id = next_id (map b_id (bets ?s)), user_id = 7,
                              market_id = m_id ?m, direction = ''UP'', amount = 100,
                              resolved = False\<rparr>]\<rparr> \<and>
      find_user (users (snd (cmd_bet 5 alice (Some (''UP'', Some 100)) ?s))) 7 =
        Some (?u\<lparr>username := tg_name alice, coins := coins ?u - 100\<rparr>) \<and>
      (\<forall>v. v \<noteq> 7 \<longrightarrow>
         find_user (users (snd (cmd_bet 5 alice (Some (''UP'', Some 100)) ?s))) v =
         find_user (users ?s) v))"
    by (rule bet_admission_success[OF refl _ _ _ g f _ n', of "''UP''" 100 alice 5])
       (simp_all add: MIN_BET_AMOUNT_def MAX_BET_AMOUNT_def)
  have nz: "(7::int) \<noteq> 0" by simp
  from t nz have "fst (place_bet 7 ''UP'' 100 ?s) = Accepted (coins ?u - 100) (100 * 2)"
    by blast
  then have p1: "fst (place_bet 7 ''UP'' 100 ?s) = Accepted 0 200" by simp
  from t nz have "find_user (users (snd (place_bet 7 ''UP'' 100 ?s))) 7 =
      Some (?u\<lparr>coins := coins ?u - 100\<rparr>)"
    by blast
  then have p2: "find_user (users (snd (place_bet 7 ''UP'' 100 ?s))) 7 =
       Some \<lparr>telegram_id = 7, username = ''alice'', coins = 0, last_daily = Some 10\<rparr>"
    by simp
  from t a(1) l have "fst (cmd_bet 5 alice (Some (''UP'', Some 100)) ?s) =
      Accepted (coins ?u - 100) (100 * 2)"
    by blast
  then have c1: "fst (cmd_bet 5 alice (Some (''UP'', Some 100)) ?s) = Accepted 0 200" by simp
  from t a(1) l have "snd (cmd_bet 5 alice (Some (''UP'', Some 100)) ?s) =
        ?s\<lparr>rate_buckets := snd (is_rate_limited 5 7 (rate_buckets ?s)),
          users := add_coins 7 (- 100) (ensure_user 7 (tg_name alice) (users ?s)),
          bets := bets ?s @ [\<lparr>b_id = next_id (map b_id (bets ?s)), user_id = 7,
                              market_id = m_id ?m, direction = ''UP'', amount = 100,
                              resolved = False\<rparr>]\<rparr>"
    by blast
  then have "bets (snd (cmd_bet 5 alice (Some (''UP'', Some 100)) ?s)) =
      bets ?s @ [\<lparr>b_id = next_id (map b_id (bets ?s)), user_id = 7,
                   market_id = m_id ?m, direction = ''UP'', amount = 100, resolved = False\<rparr>]"
    by simp
  then have c2: "bets (snd (cmd_bet 5 alice (Some (''UP'', Some 100)) ?s)) =
     [\<lparr>b_id = 1, user_id = 7, market_id = 1, direction = ''UP'', amount = 100,
       resolved = False\<rparr>]"
    by (simp add: b next_id_def)
  from g f n l p1 p2 c1 c2 show ?thesis by (intro conjI)
qed

subsection \<open>Unknown users\<close>

lemma ensure_user_new:
  assumes "find_user us uid = None"
  shows "ensure_user uid name us =
     us @ [\<lparr>telegram_id = uid, username = name, coins = 0, last_daily = None\<rparr>]"
proof -
  from assms have no: "\<forall>u \<in> set us. telegram_id u \<noteq> uid"
    by (auto simp: find_user_None_iff)
  then have "map (\<lambda>u. if telegram_id u = uid then u\<lparr>username := name\<rparr> else u) us = us"
    by (induction us) auto
  with no show ?thesis by (simp add: ensure_user_def)
qed

lemma find_user_append_new:
  assumes "find_user us uid = None" and "telegram_id r = uid"
  shows "find_user (us @ [r]) uid = Some r"
  using assms unfolding find_user_def by (induction us) (auto split: if_splits)

lemma find_user_append_other:
  assumes "telegram_id r \<noteq> v"
  shows "find_user (us @ [r]) v = find_user us v"
  using assms unfolding find_user_def by (induction us) auto






subsection \<open>Rejected requests\<close>

lemma cmd_bet_txn_rejected:
  assumes "fst (cmd_bet_txn user d amt s) = Rejected r"
  shows "r \<in> {NoActiveMarket, NotEnoughCoins, AlreadyBet} \<and>
         snd (cmd_bet_txn user d amt s) =
           s\<lparr>users := ensure_user (tg_id user) (tg_name user) (users s)\<rparr>"
proof (cases "get_open_market (markets s)")
  case None
  with assms show ?thesis by (auto simp: cmd_bet_txn_def Let_def)
next
  case m: (Some market)
  let ?us = "ensure_user (tg_id user) (tg_name user) (users s)"
  show ?thesis
  proof (cases "find_user ?us (tg_id user)")
    case None
    with m assms show ?thesis by (simp add: cmd_bet_txn_def Let_def)
  next
    case row: (Some row)
    show ?thesis
    proof (cases "amt > coins row \<or> existing_bet (bets s) (tg_id user) (m_id market)")
      case True
      with m row assms show ?thesis by (auto simp: cmd_bet_txn_def Let_def split: if_splits)
    next
      case ok: False
      show ?thesis
      proof (cases "insert_bet (tg_id user) (m_id market) d amt (bets s)")
        case None
        with m row ok assms show ?thesis by (simp add: cmd_bet_txn_def Let_def)
      next
        case (Some bs)
        with m row ok assms show ?thesis by (simp add: cmd_bet_txn_def Let_def)
      qed
    qed
  qed
qed

lemma cmd_bet_rejected:
  assumes "fst (cmd_bet now user args s) = Rejected r"
  shows "snd (cmd_bet now user args s) =
     s\<lparr>rate_buckets := snd (is_rate_limited now (tg_id user) (rate_buckets s)),
       users := (if r \<in> {NoActiveMarket, NotEnoughCoins, AlreadyBet}
                 then ensure_user (tg_id user) (tg_name user) (users s)
                 else users s)\<rparr>"
proof -
  let ?s0 = "s\<lparr>rate_buckets := snd (is_rate_limited now (tg_id user) (rate_buckets s))\<rparr>"
  have early: ?thesis
    if "cmd_bet now user args s = (Rejected r', ?s0)"
      "r' \<in> {RateLimited, Usage, BadDirection, NotWholeNumber, BelowMinimum, AboveMaximum}" for r'
  proof -
    from that(1) assms have "r = r'" by simp
    with that show ?thesis by auto
  qed
  have late: ?thesis if "cmd_bet now user args s = cmd_bet_txn user d amt ?s0" for d amt
  proof -
    from assms that have "fst (cmd_bet_txn user d amt ?s0) = Rejected r" by simp
    from cmd_bet_txn_rejected[OF this] show ?thesis by (simp add: that)
  qed
  show ?thesis
  proof (cases "fst (is_rate_limited now (tg_id user) (rate_buckets s))")
    case True
    then show ?thesis by (intro early[of RateLimited]) (simp_all add: cmd_bet_def Let_def)
  next
    case adm: False
    show ?thesis
    proof (cases args)
      case None
      with adm show ?thesis by (intro early[of Usage]) (simp_all add: cmd_bet_def Let_def)
    next
      case (Some a)
      obtain d parsed where a: "a = (d, parsed)" by (cases a)
      show ?thesis
      proof (cases "d = ''UP'' \<or> d = ''DOWN''")
        case False
        with adm Some a show ?thesis
          by (intro early[of BadDirection]) (simp_all add: cmd_bet_def Let_def)
      next
        case dir: True
        show ?thesis
        proof (cases parsed)
          case None
          with adm Some a dir show ?thesis
            by (intro early[of NotWholeNumber]) (auto simp: cmd_bet_def Let_def)
        next
          case amt: (Some amt)
          consider "amt < MIN_BET_AMOUNT" | "\<not> amt < MIN_BET_AMOUNT" "amt > MAX_BET_AMOUNT"
            | "MIN_BET_AMOUNT \<le> amt" "amt \<le> MAX_BET_AMOUNT" by linarith
          then show ?thesis
          proof cases
            case 1
            with adm Some a dir amt show ?thesis
              by (intro early[of BelowMinimum]) (auto simp: cmd_bet_def Let_def)
          next
            case 2
            with adm Some a dir amt show ?thesis
              by (intro early[of AboveMaximum]) (auto simp: cmd_bet_def Let_def)
          next
            case 3
            show ?thesis
              using cmd_bet_valid[OF adm dir 3] Some a amt by (intro late[of d amt]) simp
          qed
        qed
      qed
    qed
  qed
qed

lemma place_bet_rejected:
  assumes "fst (place_bet uid d amt s) = Rejected r"
  shows "snd (place_bet uid d amt s) = s"
proof -
  from place_bet_txn_shape[of uid d amt s]
  have "snd (place_bet_txn uid d amt s) = s \<or> (\<exists>a b. fst (place_bet_txn uid d amt s) = Accepted a b)"
    by auto
  moreover have "place_bet uid d amt s = place_bet_txn uid d amt s \<or> snd (place_bet uid d amt s) = s"
    by (simp add: place_bet_def)
  ultimately show ?thesis using assms by auto
qed

lemma balances_ensure_user:
  "map (\<lambda>u. (telegram_id u, coins u, last_daily u)) (ensure_user uid name us) =
     map (\<lambda>u. (telegram_id u, coins u, last_daily u)) us @
     (if find_user us uid = None then [(uid, 0, None)] else [])"
proof (cases "find_user us uid")
  case None
  then show ?thesis by (simp add: ensure_user_new)
next
  case (Some u)
  then show ?thesis by (simp add: ensure_user_existing comp_def cong: if_cong)
qed


text \<open>
  C3, as the code has it. A rejected request never creates a bet row, never changes a
  market or a snapshot and never changes the balance or the last-claim date of an existing
  user. The HTTP route leaves the whole state as it was. The bot command has recorded the
  attempt in the limiter (the bucket is only pruned when the rejection is \<open>RateLimited\<close>),
  and the three rejections raised inside its transaction (no market, not enough coins,
  duplicate bet) come after \<open>ensure_user\<close>: the stored username is refreshed, and a user
  without a row gets one with balance 0.
\<close>

theorem rejected_bet_keeps_ledger:
  "(fst (place_bet uid d amt s) = Rejected r \<longrightarrow> snd (place_bet uid d amt s) = s) \<and>
   (fst (cmd_bet now user args s) = Rejected r \<longrightarrow>
      bets (snd (cmd_bet now user args s)) = bets s \<and>
      markets (snd (cmd_bet now user args s)) = markets s \<and>
      weekly_coins_snapshot (snd (cmd_bet now user args s)) = weekly_coins_snapshot s \<and>
      rate_buckets (snd (cmd_bet now user args s)) =
        snd (is_rate_limited now (tg_id user) (rate_buckets s)) \<and>
      users (snd (cmd_bet now user args s)) =
        (if r \<in> {NoActiveMarket, NotEnoughCoins, AlreadyBet}
         then ensure_user (tg_id user) (tg_name user) (users s)
         else users s) \<and>
      map (\<lambda>u. (telegram_id u, coins u, last_daily u)) (users (snd (cmd_bet now user args s))) =
        map (\<lambda>u. (telegram_id u, coins u, last_daily u)) (users s) @
        (if r \<in> {NoActiveMarket, NotEnoughCoins, AlreadyBet} \<and>
            find_user (users s) (tg_id user) = None
         then [(tg_id user, 0, None)] else []))"
proof -
  have a: "snd (place_bet uid d amt s) = s" if "fst (place_bet uid d amt s) = Rejected r"
    using that by (rule place_bet_rejected)
  have b: "bets (snd (cmd_bet now user args s)) = bets s \<and>
      markets (snd (cmd_bet now user args s)) = markets s \<and>
      weekly_coins_snapshot (snd (cmd_bet now user args s)) = weekly_coins_snapshot s \<and>
      rate_buckets (snd (cmd_bet now user args s)) =
        snd (is_rate_limited now (tg_id user) (rate_buckets s)) \<and>
      users (snd (cmd_bet now user args s)) =
        (if r \<in> {NoActiveMarket, NotEnoughCoins, AlreadyBet}
         then ensure_user (tg_id user) (tg_name user) (users s)
         else users s) \<and>
      map (\<lambda>u. (telegram_id u, coins u, last_daily u)) (users (snd (cmd_bet now user args s))) =
        map (\<lambda>u. (telegram_id u, coins u, last_daily u)) (users s) @
        (if r \<in> {NoActiveMarket, NotEnoughCoins, AlreadyBet} \<and>
            find_user (users s) (tg_id user) = None
         then [(tg_id user, 0, None)] else [])"
    if "fst (cmd_bet now user args s) = Rejected r"
  proof (cases "r \<in> {NoActiveMarket, NotEnoughCoins, AlreadyBet}")
    case True
    then show ?thesis
      unfolding cmd_bet_rejected[OF that] by (simp add: balances_ensure_user)
  next
    case False
    then show ?thesis
      unfolding cmd_bet_rejected[OF that] by simp
  qed
  from a b show ?thesis by blast
qed

text \<open>
  Alice holds 100 coins and asks for a stake of 500 on both front-ends.
\<close>

theorem rejected_bet_keeps_ledger_witness:
  "fst (place_bet 7 ''UP'' 500 (run one_claim init_state)) = Rejected NotEnoughCoins \<and>
   find_user (users (snd (place_bet 7 ''UP'' 500 (run one_claim init_state)))) 7 =
     Some \<lparr>telegram_id = 7, username = ''alice'', coins = 100, last_daily = Some 10\<rparr> \<and>
   bets (snd (place_bet 7 ''UP'' 500 (run one_claim init_state))) = [] \<and>
   fst (cmd_bet 5 alice (Some (''UP'', Some 500)) (run one_claim init_state)) =
     Rejected NotEnoughCoins \<and>
   bets (snd (cmd_bet 5 alice (Some (''UP'', Some 500)) (run one_claim init_state))) = [] \<and>
   map (\<lambda>u. (telegram_id u, coins u, last_daily u))
     (users (snd (cmd_bet 5 alice (Some (''UP'', Some 500)) (run one_claim init_state)))) =
     [(7, 100, Some 10)]"
proof -
  let ?s = "run one_claim init_state"
  have p: "fst (place_bet 7 ''UP'' 500 ?s) = Rejected NotEnoughCoins" by code_simp
  have c: "fst (cmd_bet 5 alice (Some (''UP'', Some 500)) ?s) = Rejected NotEnoughCoins"
    by code_simp
  have f: "find_user (users ?s) 7 =
      Some \<lparr>telegram_id = 7, username = ''alice'', coins = 100, last_daily = Some 10\<rparr>"
    by code_simp
  have b: "bets ?s = []" by code_simp
  have u: "map (\<lambda>u. (telegram_id u, coins u, last_daily u)) (users ?s) = [(7, 100, Some 10)]"
    by code_simp
  have a: "tg_id alice = 7" by (simp add: alice_def)
  note t = rejected_bet_keeps_ledger[of 7 "''UP''" 500 ?s NotEnoughCoins 5 alice
      "Some (''UP'', Some 500)"]
  from t p have e: "snd (place_bet 7 ''UP'' 500 ?s) = ?s" by blast
  have p1: "find_user (users (snd (place_bet 7 ''UP'' 500 ?s))) 7 =
      Some \<lparr>telegram_id = 7, username = ''alice'', coins = 100, last_daily = Some 10\<rparr>"
    by (simp only: e f)
  have p2: "bets (snd (place_bet 7 ''UP'' 500 ?s)) = []" by (simp only: e b)
  from t c have "bets (snd (cmd_bet 5 alice (Some (''UP'', Some 500)) ?s)) = bets ?s" by blast
  then have c1: "bets (snd (cmd_bet 5 alice (Some (''UP'', Some 500)) ?s)) = []" by (simp only: b)
  from t c have "map (\<lambda>u. (telegram_id u, coins u, last_daily u))
        (users (snd (cmd_bet 5 alice (Some (''UP'', Some 500)) ?s))) =
      map (\<lambda>u. (telegram_id u, coins u, last_daily u)) (users ?s) @
        (if NotEnoughCoins \<in> {NoActiveMarket, NotEnoughCoins, AlreadyBet} \<and>
            find_user (users ?s) (tg_id alice) = None
         then [(tg_id alice, 0, None)] else [])"
    by blast
  then have c2: "map (\<lambda>u. (telegram_id u, coins u, last_daily u))
        (users (snd (cmd_bet 5 alice (Some (''UP'', Some 500)) ?s))) = [(7, 100, Some 10)]"
    by (simp add: u a f)
  from p p1 p2 c c1 c2 show ?thesis by (intro conjI)
qed

text \<open>
  Against C3 as stated: Carol has no row; her request is rejected for lack of coins, and
  the users table has changed.
\<close>

theorem rejected_bet_changes_state:
  "fst (cmd_bet 5 carol (Some (''UP'', Some 50)) (run one_claim init_state)) =
     Rejected NotEnoughCoins \<and>
   users (snd (cmd_bet 5 carol (Some (''UP'', Some 50)) (run one_claim init_state))) \<noteq>
     users (run one_claim init_state) \<and>
   rate_buckets (snd (cmd_bet 5 carol (Some (''UP'', Some 50)) (run one_claim init_state))) 9 \<noteq>
     rate_buckets (run one_claim init_state) 9"
  by code_simp

subsection \<open>Daily reward\<close>

lemma on_reaction_eligible_eq:
  assumes "upd = Some r" and "new_reaction r" and "reactor r = Some user" and "\<not> is_bot user"
  shows "on_reaction upd today send_ok s =
     (fst (on_reaction_txn user today s),
      case snd (on_reaction_txn user today s) of
        None \<Rightarrow> None
      | Some nb \<Rightarrow> if send_ok then Some (tg_id user, nb) else None)"
  using assms unfolding on_reaction_def DAILY_REWARD_MESSAGE_ID_def
  by (cases "on_reaction_txn user today s"; cases "snd (on_reaction_txn user today s)") simp_all

lemma ensure_user_idem:
  assumes "\<exists>u \<in> set us. telegram_id u = uid"
    and "\<forall>u \<in> set us. telegram_id u = uid \<longrightarrow> username u = name"
  shows "ensure_user uid name us = us"
proof -
  have "map (\<lambda>u. if telegram_id u = uid then u\<lparr>username := name\<rparr> else u) us = us"
    using assms(2) by (induction us) auto
  with assms(1) show ?thesis by (simp add: ensure_user_def)
qed

lemma ensure_user_names:
  "\<forall>u \<in> set (ensure_user uid name us). telegram_id u = uid \<longrightarrow> username u = name"
  by (auto simp: ensure_user_def)

lemma ensure_user_has:
  "\<exists>u \<in> set (ensure_user uid name us). telegram_id u = uid"
proof -
  obtain row where "find_user (ensure_user uid name us) uid = Some row"
    using find_user_ensure_user_self by blast
  then show ?thesis using find_user_SomeD by blast
qed

lemma on_reaction_txn_idem:
  "fst (on_reaction_txn user today (fst (on_reaction_txn user today s))) =
   fst (on_reaction_txn user today s)"
proof -
  let ?uid = "tg_id user" and ?name = "tg_name user"
  let ?us1 = "ensure_user ?uid ?name (users s)"
  let ?daily = "\<lambda>u. if telegram_id u = ?uid
                     then u\<lparr>coins := coins u + DAILY_REWARD_AMOUNT, last_daily := Some today\<rparr>
                     else u"
  obtain row where row: "find_user ?us1 ?uid = Some row"
    using find_user_ensure_user_self by blast
  have id: "telegram_id row = ?uid" using row by (simp add: find_user_SomeD)
  define s1 where "s1 = fst (on_reaction_txn user today s)"
  have has: "\<exists>u \<in> set (users s1). telegram_id u = ?uid"
    and names: "\<forall>u \<in> set (users s1). telegram_id u = ?uid \<longrightarrow> username u = ?name"
    and again: "\<exists>row'. find_user (users s1) ?uid = Some row' \<and> last_daily row' = Some today"
  proof -
    have "map telegram_id (users s1) = map telegram_id ?us1"
      unfolding s1_def on_reaction_txn_eq[OF row] by simp
    moreover have "?uid \<in> set (map telegram_id ?us1)"
      by (simp add: ids_ensure_user)
    ultimately have "?uid \<in> set (map telegram_id (users s1))" by simp
    then show "\<exists>u \<in> set (users s1). telegram_id u = ?uid" by auto
    show "\<forall>u \<in> set (users s1). telegram_id u = ?uid \<longrightarrow> username u = ?name"
      using ensure_user_names[of ?uid ?name "users s"]
      unfolding s1_def on_reaction_txn_eq[OF row] by (auto split: if_splits)
    show "\<exists>row'. find_user (users s1) ?uid = Some row' \<and> last_daily row' = Some today"
    proof (cases "last_daily row = Some today")
      case True
      then show ?thesis unfolding s1_def on_reaction_txn_eq[OF row] using row by simp
    next
      case False
      have "find_user (map ?daily ?us1) ?uid = map_option ?daily (find_user ?us1 ?uid)"
        by (rule find_user_map_upd) simp
      with False show ?thesis
        unfolding s1_def on_reaction_txn_eq[OF row] using row id by simp
    qed
  qed
  have e: "ensure_user ?uid ?name (users s1) = users s1"
    by (rule ensure_user_idem[OF has names])
  from again obtain row' where r': "find_user (users s1) ?uid = Some row'"
    "last_daily row' = Some today" by blast
  have "find_user (ensure_user ?uid ?name (users s1)) ?uid = Some row'"
    using r'(1) by (simp only: e)
  from on_reaction_txn_eq[OF this, of today] r'(2) e
  have "fst (on_reaction_txn user today s1) = s1" by simp
  then show ?thesis by (simp only: s1_def)
qed

text \<open>
  C7, as the code has it. A claim event is a reaction with a non-empty list by a user that
  is not a bot. When the user's row carries today's date as last-claim date, the event
  grants nothing, raises nothing and sends nothing: no balance and no last-claim date
  changes, the only write is the refresh of the stored username by \<open>ensure_user\<close>, so
  the state is the same when the name is the stored one. Otherwise (another date, no date,
  or no row yet) the balance grows by \<open>DAILY_REWARD_AMOUNT\<close> (100) and the last-claim date
  becomes today, whether the notification is delivered or not. No other user, bet or
  market changes, and the same event a second time leaves the state as the first left it.
\<close>

theorem daily_reward_once_per_day:
  assumes "upd = Some r" and "new_reaction r" and "reactor r = Some user" and "\<not> is_bot user"
  shows
  "(\<forall>u. find_user (users s) (tg_id user) = Some u \<and> last_daily u = Some today \<longrightarrow>
      on_reaction upd today send_ok s =
        (s\<lparr>users := ensure_user (tg_id user) (tg_name user) (users s)\<rparr>, None) \<and>
      map (\<lambda>u. (telegram_id u, coins u, last_daily u))
          (users (fst (on_reaction upd today send_ok s))) =
        map (\<lambda>u. (telegram_id u, coins u, last_daily u)) (users s) \<and>
      ((\<forall>w \<in> set (users s). telegram_id w = tg_id user \<longrightarrow> username w = tg_name user) \<longrightarrow>
         on_reaction upd today send_ok s = (s, None))) \<and>
   (\<forall>u. find_user (users s) (tg_id user) = Some u \<and> last_daily u \<noteq> Some today \<longrightarrow>
      find_user (users (fst (on_reaction upd today send_ok s))) (tg_id user) =
        Some (u\<lparr>username := tg_name user, coins := coins u + 100, last_daily := Some today\<rparr>) \<and>
      snd (on_reaction upd today send_ok s) =
        (if send_ok then Some (tg_id user, coins u + 100) else None)) \<and>
   (find_user (users s) (tg_id user) = None \<longrightarrow>
      find_user (users (fst (on_reaction upd today send_ok s))) (tg_id user) =
        Some \<lparr>telegram_id = tg_id user, username = tg_name user, coins = 100,
              last_daily = Some today\<rparr> \<and>
      snd (on_reaction upd today send_ok s) =
        (if send_ok then Some (tg_id user, 100) else None)) \<and>
   (\<forall>v. v \<noteq> tg_id user \<longrightarrow>
      find_user (users (fst (on_reaction upd today send_ok s))) v = find_user (users s) v) \<and>
   bets (fst (on_reaction upd today send_ok s)) = bets s \<and>
   markets (fst (on_reaction upd today send_ok s)) = markets s \<and>
   fst (on_reaction upd today True s) = fst (on_reaction upd today False s) \<and>
   fst (on_reaction upd today send_ok' (fst (on_reaction upd today send_ok s))) =
     fst (on_reaction upd today send_ok s)"
proof -
  let ?uid = "tg_id user" and ?name = "tg_name user"
  let ?us1 = "ensure_user ?uid ?name (users s)"
  let ?daily = "\<lambda>u. if telegram_id u = ?uid
                     then u\<lparr>coins := coins u + DAILY_REWARD_AMOUNT, last_daily := Some today\<rparr>
                     else u"
  note eq = on_reaction_eligible_eq[OF assms]
  obtain row where row: "find_user ?us1 ?uid = Some row"
    using find_user_ensure_user_self by blast
  note txn = on_reaction_txn_eq[OF row, of today]
  have fd: "find_user (map ?daily ?us1) v = map_option ?daily (find_user ?us1 v)" for v
    by (rule find_user_map_upd) simp
  have other1: "find_user ?us1 v = find_user (users s) v" if "v \<noteq> ?uid" for v
  proof (cases "find_user (users s) ?uid")
    case None
    with that show ?thesis by (simp add: ensure_user_new find_user_append_other)
  next
    case (Some u)
    have "find_user (map (\<lambda>u. if telegram_id u = ?uid then u\<lparr>username := ?name\<rparr> else u) (users s)) v
        = map_option (\<lambda>u. if telegram_id u = ?uid then u\<lparr>username := ?name\<rparr> else u)
            (find_user (users s) v)"
      by (rule find_user_map_upd) simp
    moreover have "map_option (\<lambda>u. if telegram_id u = ?uid then u\<lparr>username := ?name\<rparr> else u)
            (find_user (users s) v) = find_user (users s) v"
    proof (cases "find_user (users s) v")
      case None then show ?thesis by simp
    next
      case w: (Some w)
      then have "telegram_id w = v" by (simp add: find_user_SomeD)
      with w that show ?thesis by simp
    qed
    ultimately show ?thesis by (simp add: ensure_user_existing[OF Some])
  qed
  have a: "on_reaction upd today send_ok s = (s\<lparr>users := ?us1\<rparr>, None) \<and>
      map (\<lambda>u. (telegram_id u, coins u, last_daily u))
          (users (fst (on_reaction upd today send_ok s))) =
        map (\<lambda>u. (telegram_id u, coins u, last_daily u)) (users s) \<and>
      ((\<forall>w \<in> set (users s). telegram_id w = ?uid \<longrightarrow> username w = ?name) \<longrightarrow>
         on_reaction upd today send_ok s = (s, None))"
    if u: "find_user (users s) ?uid = Some u" and claimed: "last_daily u = Some today" for u
  proof -
    have r: "row = u\<lparr>username := ?name\<rparr>"
      using find_user_ensure_user_existing[OF u, of ?name] row by simp
    have 1: "on_reaction upd today send_ok s = (s\<lparr>users := ?us1\<rparr>, None)"
      using claimed by (simp add: eq txn r)
    have 2: "map (\<lambda>u. (telegram_id u, coins u, last_daily u)) ?us1 =
        map (\<lambda>u. (telegram_id u, coins u, last_daily u)) (users s)"
      using u by (simp add: balances_ensure_user)
    have 3: "on_reaction upd today send_ok s = (s, None)"
      if "\<forall>w \<in> set (users s). telegram_id w = ?uid \<longrightarrow> username w = ?name"
    proof -
      have "\<exists>w \<in> set (users s). telegram_id w = ?uid"
        using find_user_SomeD[OF u] by blast
      from ensure_user_idem[OF this that] show ?thesis by (simp add: 1)
    qed
    from 1 2 3 show ?thesis by simp
  qed
  have b: "find_user (users (fst (on_reaction upd today send_ok s))) ?uid =
        Some (u\<lparr>username := ?name, coins := coins u + 100, last_daily := Some today\<rparr>) \<and>
      snd (on_reaction upd today send_ok s) =
        (if send_ok then Some (?uid, coins u + 100) else None)"
    if u: "find_user (users s) ?uid = Some u" and fresh: "last_daily u \<noteq> Some today" for u
  proof -
    have r: "row = u\<lparr>username := ?name\<rparr>"
      using find_user_ensure_user_existing[OF u, of ?name] row by simp
    have id: "telegram_id u = ?uid" using u by (simp add: find_user_SomeD)
    show ?thesis
      using fresh id by (simp add: eq txn r fd row DAILY_REWARD_AMOUNT_def)
  qed
  have c: "find_user (users (fst (on_reaction upd today send_ok s))) ?uid =
        Some \<lparr>telegram_id = ?uid, username = ?name, coins = 100, last_daily = Some today\<rparr> \<and>
      snd (on_reaction upd today send_ok s) = (if send_ok then Some (?uid, 100) else None)"
    if none: "find_user (users s) ?uid = None"
  proof -
    have "find_user ?us1 ?uid =
        Some \<lparr>telegram_id = ?uid, username = ?name, coins = 0, last_daily = None\<rparr>"
      unfolding ensure_user_new[OF none] by (rule find_user_append_new[OF none]) simp
    with row have r: "row = \<lparr>telegram_id = ?uid, username = ?name, coins = 0, last_daily = None\<rparr>"
      by simp
    show ?thesis by (simp add: eq txn r fd row DAILY_REWARD_AMOUNT_def)
  qed
  have d: "find_user (users (fst (on_reaction upd today send_ok s))) v = find_user (users s) v"
    if "v \<noteq> ?uid" for v
  proof -
    have "map_option ?daily (find_user (users s) v) = find_user (users s) v"
    proof (cases "find_user (users s) v")
      case None then show ?thesis by simp
    next
      case w: (Some w)
      then have "telegram_id w = v" by (simp add: find_user_SomeD)
      with w that show ?thesis by simp
    qed
    then show ?thesis by (simp add: eq txn fd other1[OF that])
  qed
  have e: "bets (fst (on_reaction upd today send_ok s)) = bets s"
    "markets (fst (on_reaction upd today send_ok s)) = markets s"
    by (simp_all add: eq txn)
  have f: "fst (on_reaction upd today True s) = fst (on_reaction upd today False s)"
    by (simp add: on_reaction_eligible[OF assms])
  have g: "fst (on_reaction upd today send_ok' (fst (on_reaction upd today send_ok s))) =
     fst (on_reaction upd today send_ok s)"
    by (simp only: on_reaction_eligible[OF assms] on_reaction_txn_idem)
  from a b c d e f g show ?thesis by blast
qed


text \<open>
  Alice has claimed on day 10 and holds 100 coins. The same day her reaction grants
  nothing; on day 11 it grants 100 although the notification is not delivered, and a
  second reaction that day changes nothing.
\<close>

theorem daily_reward_once_per_day_witness:
  "find_user (users (run one_claim init_state)) 7 =
     Some \<lparr>telegram_id = 7, username = ''alice'', coins = 100, last_daily = Some 10\<rparr> \<and>
   snd (on_reaction (reaction_of alice) 10 True (run one_claim init_state)) = None \<and>
   map (\<lambda>u. (telegram_id u, coins u, last_daily u))
     (users (fst (on_reaction (reaction_of alice) 10 True (run one_claim init_state)))) =
     [(7, 100, Some 10)] \<and>
   find_user (users (fst (on_reaction (reaction_of alice) 11 False (run one_claim init_state)))) 7 =
     Some \<lparr>telegram_id = 7, username = ''alice'', coins = 200, last_daily = Some 11\<rparr> \<and>
   snd (on_reaction (reaction_of alice) 11 False (run one_claim init_state)) = None \<and>
   fst (on_reaction (reaction_of alice) 11 True
          (fst (on_reaction (reaction_of alice) 11 False (run one_claim init_state)))) =
     fst (on_reaction (reaction_of alice) 11 False (run one_claim init_state))"
proof -
  let ?s = "run one_claim init_state"
  let ?r = "\<lparr>new_reaction = True, message_id = 1, reactor = Some alice\<rparr>"
  let ?u = "\<lparr>telegram_id = 7, username = ''alice'', coins = 100, last_daily = Some 10\<rparr>"
  have e: "reaction_of alice = Some ?r" "new_reaction ?r" "reactor ?r = Some alice"
    "\<not> is_bot alice"
    by (simp_all add: reaction_of_def alice_def)
  have a: "tg_id alice = 7" "tg_name alice = ''alice''" by (simp_all add: alice_def)
  have f: "find_user (users ?s) 7 = Some ?u" by code_simp
  have f': "find_user (users ?s) (tg_id alice) = Some ?u" using f by (simp only: a)
  have m: "map (\<lambda>u. (telegram_id u, coins u, last_daily u)) (users ?s) = [(7, 100, Some 10)]"
    by code_simp
  note same = daily_reward_once_per_day[OF e, of ?s 10 True True]
  note next_day = daily_reward_once_per_day[OF e, of ?s 11 False True]
  have c10: "find_user (users ?s) (tg_id alice) = Some ?u \<and> last_daily ?u = Some 10"
    using f' by simp
  with same have "on_reaction (reaction_of alice) 10 True ?s =
      (?s\<lparr>users := ensure_user (tg_id alice) (tg_name alice) (users ?s)\<rparr>, None)"
    by blast
  then have p1: "snd (on_reaction (reaction_of alice) 10 True ?s) = None" by simp
  from same c10 have "map (\<lambda>u. (telegram_id u, coins u, last_daily u))
          (users (fst (on_reaction (reaction_of alice) 10 True ?s))) =
        map (\<lambda>u. (telegram_id u, coins u, last_daily u)) (users ?s)"
    by blast
  then have p2: "map (\<lambda>u. (telegram_id u, coins u, last_daily u))
          (users (fst (on_reaction (reaction_of alice) 10 True ?s))) = [(7, 100, Some 10)]"
    by (simp only: m)
  have c11: "find_user (users ?s) (tg_id alice) = Some ?u \<and> last_daily ?u \<noteq> Some 11"
    using f' by simp
  with next_day have "find_user (users (fst (on_reaction (reaction_of alice) 11 False ?s)))
        (tg_id alice) =
      Some (?u\<lparr>username := tg_name alice, coins := coins ?u + 100, last_daily := Some 11\<rparr>)"
    by blast
  then have p3: "find_user (users (fst (on_reaction (reaction_of alice) 11 False ?s))) 7 =
      Some \<lparr>telegram_id = 7, username = ''alice'', coins = 200, last_daily = Some 11\<rparr>"
    by (simp add: a)
  from next_day c11 have "snd (on_reaction (reaction_of alice) 11 False ?s) =
      (if False then Some (tg_id alice, coins ?u + 100) else None)"
    by blast
  then have p4: "snd (on_reaction (reaction_of alice) 11 False ?s) = None" by simp
  from next_day have p5: "fst (on_reaction (reaction_of alice) 11 True
          (fst (on_reaction (reaction_of alice) 11 False ?s))) =
     fst (on_reaction (reaction_of alice) 11 False ?s)"
    by blast
  from f p1 p2 p3 p4 p5 show ?thesis by (intro conjI)
qed

text \<open>
  Against C7 as stated: Alice has claimed on day 10 and reacts again that day under a new
  username. Nothing is granted, but the users table is not what it was.
\<close>

theorem repeated_claim_refreshes_username:
  "find_user (users (run one_claim init_state)) 7 =
     Some \<lparr>telegram_id = 7, username = ''alice'', coins = 100, last_daily = Some 10\<rparr> \<and>
   users (fst (on_reaction (reaction_of \<lparr>tg_id = 7, tg_name = ''alice_b'', is_bot = False\<rparr>)
                 10 True (run one_claim init_state))) \<noteq>
     users (run one_claim init_state)"
  by code_simp

subsection \<open>The two front-ends\<close>

lemma balances_add_coins_ensure_user:
  assumes "find_user us uid = Some u"
  shows "map (\<lambda>u. (telegram_id u, coins u, last_daily u)) (add_coins uid n (ensure_user uid name us)) =
         map (\<lambda>u. (telegram_id u, coins u, last_daily u)) (add_coins uid n us)"
  unfolding ensure_user_existing[OF assms] add_coins_def
  by (induction us) auto

lemma txn_agree:
  assumes ok: "state_ok s" and u: "find_user (users s) uid = Some u" and t: "tg_id user = uid"
  shows "fst (cmd_bet_txn user d amt (s\<lparr>rate_buckets := rb\<rparr>)) = fst (place_bet_txn uid d amt s) \<and>
         bets (snd (cmd_bet_txn user d amt (s\<lparr>rate_buckets := rb\<rparr>))) =
           bets (snd (place_bet_txn uid d amt s)) \<and>
         markets (snd (cmd_bet_txn user d amt (s\<lparr>rate_buckets := rb\<rparr>))) =
           markets (snd (place_bet_txn uid d amt s)) \<and>
         map (\<lambda>u. (telegram_id u, coins u, last_daily u))
             (users (snd (cmd_bet_txn user d amt (s\<lparr>rate_buckets := rb\<rparr>)))) =
           map (\<lambda>u. (telegram_id u, coins u, last_daily u))
             (users (snd (place_bet_txn uid d amt s)))"
proof -
  let ?s0 = "s\<lparr>rate_buckets := rb\<rparr>"
  let ?name = "tg_name user"
  have row: "find_user (ensure_user uid ?name (users s)) uid = Some (u\<lparr>username := ?name\<rparr>)"
    by (rule find_user_ensure_user_existing[OF u])
  have bal: "map (\<lambda>u. (telegram_id u, coins u, last_daily u)) (ensure_user uid ?name (users s)) =
      map (\<lambda>u. (telegram_id u, coins u, last_daily u)) (users s)"
    using u by (simp add: balances_ensure_user)
  show ?thesis
  proof (cases "get_open_market (markets s)")
    case None
    then show ?thesis
      using t bal by (simp add: cmd_bet_txn_def place_bet_txn_def Let_def)
  next
    case m: (Some m)
    show ?thesis
    proof (cases "amt > coins u \<or> existing_bet (bets s) uid (m_id m)")
      case True
      then show ?thesis
        using m u row t bal by (auto simp: cmd_bet_txn_def place_bet_txn_def Let_def)
    next
      case False
      then have funds: "amt \<le> coins u" and nodup: "\<not> existing_bet (bets s) uid (m_id m)"
        by simp_all
      have bok: "bets_ok (markets s) (bets s)" using ok by (simp add: state_ok_def)
      have mm: "m \<in> set (markets s)" "status m = OPEN"
        using get_open_market_SomeD[OF m] by simp_all
      let ?bs = "bets s @ [\<lparr>b_id = next_id (map b_id (bets s)), user_id = uid,
                 market_id = m_id m, direction = d, amount = amt, resolved = False\<rparr>]"
      have ins: "insert_bet uid (m_id m) d amt (bets s) = Some ?bs"
        by (rule insert_bet_fresh[OF bok mm nodup])
      have p: "place_bet_txn uid d amt s =
         (Accepted (coins u - amt) (amt * server_WIN_MULTIPLIER),
          s\<lparr>users := add_coins uid (- amt) (users s), bets := ?bs\<rparr>)"
        by (rule place_bet_txn_success[OF m u funds nodup ins])
      have c: "cmd_bet_txn user d amt ?s0 =
         (Accepted (coins (u\<lparr>username := ?name\<rparr>) - amt) (amt * WIN_MULTIPLIER),
          ?s0\<lparr>users := add_coins (tg_id user) (- amt)
                    (ensure_user (tg_id user) (tg_name user) (users ?s0)),
            bets := ?bs\<rparr>)"
        by (rule cmd_bet_txn_success[where m = m])
           (use m row funds nodup ins t in simp_all)
      show ?thesis
        unfolding p c using t
        by (simp add: WIN_MULTIPLIER_def server_WIN_MULTIPLIER_def
              balances_add_coins_ensure_user[OF u])
    qed
  qed
qed

lemma cmd_bet_not_limited:
  assumes "\<not> fst (is_rate_limited now (tg_id user) (rate_buckets s))"
  shows "fst (cmd_bet now user args s) \<noteq> Rejected RateLimited"
proof
  assume r: "fst (cmd_bet now user args s) = Rejected RateLimited"
  let ?s0 = "s\<lparr>rate_buckets := snd (is_rate_limited now (tg_id user) (rate_buckets s))\<rparr>"
  have "(\<exists>r \<in> {Usage, BadDirection, NotWholeNumber, BelowMinimum, AboveMaximum}.
           fst (cmd_bet now user args s) = Rejected r) \<or>
        (\<exists>d amt. cmd_bet now user args s = cmd_bet_txn user d amt ?s0)"
    using assms unfolding cmd_bet_def Let_def
    by (auto split: option.splits prod.splits)
  with r obtain d amt where "cmd_bet now user args s = cmd_bet_txn user d amt ?s0" by auto
  with r have "fst (cmd_bet_txn user d amt ?s0) = Rejected RateLimited" by simp
  from cmd_bet_txn_rejected[OF this] show False by simp
qed

text \<open>
  What the two front-ends share. The bot command asks the limiter first: a request over
  the limit is answered \<open>RateLimited\<close> whatever its arguments, with users, markets, bets
  and snapshots untouched, and no other request is answered so. For a registered user, a
  non-zero id, a non-empty direction and a non-zero amount, in a state reached by a run,
  the checks that follow (direction, bounds, open market, funds, duplicate bet) give the
  same answer on the bot command and on the HTTP route, and the same bets, markets and
  balances.
\<close>

theorem bot_checks_rate_limit_first:
  "(fst (is_rate_limited now (tg_id user) (rate_buckets s)) \<longrightarrow>
      cmd_bet now user args s =
        (Rejected RateLimited,
         s\<lparr>rate_buckets := snd (is_rate_limited now (tg_id user) (rate_buckets s))\<rparr>)) \<and>
   (fst (cmd_bet now user args s) = Rejected RateLimited \<longrightarrow>
      fst (is_rate_limited now (tg_id user) (rate_buckets s))) \<and>
   (s = run es init_state \<and> find_user (users s) (tg_id user) = Some u \<and> tg_id user \<noteq> 0 \<and>
    d \<noteq> [] \<and> amt \<noteq> 0 \<and> \<not> fst (is_rate_limited now (tg_id user) (rate_buckets s)) \<longrightarrow>
      fst (cmd_bet now user (Some (d, Some amt)) s) = fst (place_bet (tg_id user) d amt s) \<and>
      bets (snd (cmd_bet now user (Some (d, Some amt)) s)) =
        bets (snd (place_bet (tg_id user) d amt s)) \<and>
      markets (snd (cmd_bet now user (Some (d, Some amt)) s)) =
        markets (snd (place_bet (tg_id user) d amt s)) \<and>
      map (\<lambda>u. (telegram_id u, coins u, last_daily u))
          (users (snd (cmd_bet now user (Some (d, Some amt)) s))) =
        map (\<lambda>u. (telegram_id u, coins u, last_daily u))
          (users (snd (place_bet (tg_id user) d amt s))))"
proof -
  let ?uid = "tg_id user"
  let ?s0 = "s\<lparr>rate_buckets := snd (is_rate_limited now ?uid (rate_buckets s))\<rparr>"
  have a: "cmd_bet now user args s = (Rejected RateLimited, ?s0)"
    if "fst (is_rate_limited now ?uid (rate_buckets s))"
    using that by (simp add: cmd_bet_def Let_def)
  have b: "fst (is_rate_limited now ?uid (rate_buckets s))"
    if "fst (cmd_bet now user args s) = Rejected RateLimited"
    using that cmd_bet_not_limited[of now user s args] by blast
  have c: "fst (cmd_bet now user (Some (d, Some amt)) s) = fst (place_bet ?uid d amt s) \<and>
      bets (snd (cmd_bet now user (Some (d, Some amt)) s)) =
        bets (snd (place_bet ?uid d amt s)) \<and>
      markets (snd (cmd_bet now user (Some (d, Some amt)) s)) =
        markets (snd (place_bet ?uid d amt s)) \<and>
      map (\<lambda>u. (telegram_id u, coins u, last_daily u))
          (users (snd (cmd_bet now user (Some (d, Some amt)) s))) =
        map (\<lambda>u. (telegram_id u, coins u, last_daily u))
          (users (snd (place_bet ?uid d amt s)))"
    if s: "s = run es init_state" and u: "find_user (users s) ?uid = Some u"
      and nz: "?uid \<noteq> 0" "d \<noteq> []" "amt \<noteq> 0"
      and adm: "\<not> fst (is_rate_limited now ?uid (rate_buckets s))"
  proof -
    have ok: "state_ok s" unfolding s by (rule state_ok_run)
    consider "d \<noteq> ''UP'' \<and> d \<noteq> ''DOWN''"
      | "d = ''UP'' \<or> d = ''DOWN''" "amt < 1"
      | "d = ''UP'' \<or> d = ''DOWN''" "1 \<le> amt" "amt > 10000"
      | "d = ''UP'' \<or> d = ''DOWN''" "1 \<le> amt" "amt \<le> 10000"
      by linarith
    then show ?thesis
    proof cases
      case 1
      with nz adm show ?thesis by (simp add: cmd_bet_def place_bet_def Let_def)
    next
      case 2
      with nz adm show ?thesis
        by (auto simp: cmd_bet_def place_bet_def Let_def MIN_BET_AMOUNT_def)
    next
      case 3
      with nz adm show ?thesis
        by (auto simp: cmd_bet_def place_bet_def Let_def MIN_BET_AMOUNT_def MAX_BET_AMOUNT_def)
    next
      case 4
      have lo: "MIN_BET_AMOUNT \<le> amt" and hi: "amt \<le> MAX_BET_AMOUNT"
        using 4 by (simp_all add: MIN_BET_AMOUNT_def MAX_BET_AMOUNT_def)
      show ?thesis
        unfolding cmd_bet_valid[OF adm 4(1) lo hi] place_bet_valid[OF nz(1) 4(1) 4(2) 4(3)]
        by (rule txn_agree[OF ok u refl])
    qed
  qed
  from a b c show ?thesis by blast
qed


text \<open>
  Alice holds 100 coins and her bucket holds the seconds 0, 10 and 20. At second 30 her
  command is answered \<open>RateLimited\<close>; at second 60 it is answered as the HTTP route
  answers the same request.
\<close>

theorem bot_checks_rate_limit_first_witness:
  "fst (is_rate_limited 30 7 (rate_buckets (run alice_limited init_state))) \<and>
   fst (cmd_bet 30 alice (Some (''UP'', Some 100)) (run alice_limited init_state)) =
     Rejected RateLimited \<and>
   users (snd (cmd_bet 30 alice (Some (''UP'', Some 100)) (run alice_limited init_state))) =
     users (run alice_limited init_state) \<and>
   \<not> fst (is_rate_limited 60 7 (rate_buckets (run alice_limited init_state))) \<and>
   fst (place_bet 7 ''UP'' 100 (run alice_limited init_state)) = Accepted 0 200 \<and>
   fst (cmd_bet 60 alice (Some (''UP'', Some 100)) (run alice_limited init_state)) =
     Accepted 0 200"
proof -
  let ?s = "run alice_limited init_state"
  let ?u = "\<lparr>telegram_id = 7, username = ''alice'', coins = 100, last_daily = Some 10\<rparr>"
  have a: "tg_id alice = 7" by (simp add: alice_def)
  have l30: "fst (is_rate_limited 30 7 (rate_buckets ?s))" by code_simp
  have l60: "\<not> fst (is_rate_limited 60 7 (rate_buckets ?s))" by code_simp
  have f: "find_user (users ?s) 7 = Some ?u" by code_simp
  have p: "fst (place_bet 7 ''UP'' 100 ?s) = Accepted 0 200" by code_simp
  note t30 = bot_checks_rate_limit_first[of 30 alice ?s "Some (''UP'', Some 100)"]
  note t60 = bot_checks_rate_limit_first[of 60 alice ?s _ alice_limited ?u "''UP''" 100]
  from t30 l30 a have e: "cmd_bet 30 alice (Some (''UP'', Some 100)) ?s =
      (Rejected RateLimited,
       ?s\<lparr>rate_buckets := snd (is_rate_limited 30 (tg_id alice) (rate_buckets ?s))\<rparr>)"
    by simp
  have c1: "fst (cmd_bet 30 alice (Some (''UP'', Some 100)) ?s) = Rejected RateLimited"
    by (simp add: e)
  have c2: "users (snd (cmd_bet 30 alice (Some (''UP'', Some 100)) ?s)) = users ?s"
    by (simp add: e)
  have h: "?s = run alice_limited init_state \<and> find_user (users ?s) (tg_id alice) = Some ?u \<and>
      tg_id alice \<noteq> 0 \<and> ''UP'' \<noteq> [] \<and> (100::int) \<noteq> 0 \<and>
      \<not> fst (is_rate_limited 60 (tg_id alice) (rate_buckets ?s))"
    using f l60 by (simp add: a)
  with t60 have "fst (cmd_bet 60 alice (Some (''UP'', Some 100)) ?s) =
      fst (place_bet (tg_id alice) ''UP'' 100 ?s)"
    by blast
  then have c3: "fst (cmd_bet 60 alice (Some (''UP'', Some 100)) ?s) = Accepted 0 200"
    by (simp only: a p)
  from l30 c1 c2 l60 p c3 show ?thesis by (intro conjI)
qed

text \<open>
  C4 on the HTTP route. \<^verbatim>\<open>place_bet\<close> asks no limiter, where \<^verbatim>\<open>cmd_bet\<close> starts with
  \<^verbatim>\<open>is_rate_limited\<close>. Alice's bucket holds the seconds 0, 10 and 20, so at second 30 she
  is over the limit of three requests in sixty seconds: the bot command answers
  \<open>RateLimited\<close> and writes no bet, while the HTTP route accepts the same request, debits
  her 100 coins and inserts the bet.
\<close>

theorem http_bet_is_not_rate_limited:
  "rate_buckets (run alice_limited init_state) 7 = [0, 10, 20] \<and>
   fst (is_rate_limited 30 7 (rate_buckets (run alice_limited init_state))) \<and>
   fst (cmd_bet 30 alice (Some (''UP'', Some 100)) (run alice_limited init_state)) =
     Rejected RateLimited \<and>
   bets (snd (cmd_bet 30 alice (Some (''UP'', Some 100)) (run alice_limited init_state))) = [] \<and>
   fst (place_bet 7 ''UP'' 100 (run alice_limited init_state)) = Accepted 0 200 \<and>
   bets (snd (place_bet 7 ''UP'' 100 (run alice_limited init_state))) =
     [\<lparr>b_id = 1, user_id = 7, market_id = 1, direction = ''UP'', amount = 100,
       resolved = False\<rparr>] \<and>
   find_user (users (snd (place_bet 7 ''UP'' 100 (run alice_limited init_state)))) 7 =
     Some \<lparr>telegram_id = 7, username = ''alice'', coins = 0, last_daily = Some 10\<rparr>"
  by code_simp

end
